theory Spec2Isabelle
  imports Main "HOL-Library.Word" "HOL-Library.Multiset"
begin

unbundle bit_operations_syntax

section \<open>C strings\<close>

text \<open>
  A C string is modelled by the list of its bytes before the terminating NUL.
  Reading \<open>name[pos]\<close> at \<open>pos = strlen(name)\<close> yields the terminator.
\<close>

definition c_at :: "string \<Rightarrow> nat \<Rightarrow> char" where
  "c_at name pos = (if pos < length name then name ! pos else CHR 0x00)"

definition strspn :: "string \<Rightarrow> string \<Rightarrow> nat" where
  "strspn s accept = length (takeWhile (\<lambda>c. c \<in> set accept) s)"

definition strcspn :: "string \<Rightarrow> string \<Rightarrow> nat" where
  "strcspn s reject = length (takeWhile (\<lambda>c. c \<notin> set reject) s)"

definition isdigit :: "char \<Rightarrow> bool" where
  "isdigit c = (c \<in> set ''0123456789'')"

text \<open>
  A buffer of bytes that is read through a \<open>char *\<close>: the reader sees the bytes before
  the first NUL byte. (A \<open>GString\<close> keeps a NUL byte behind its \<open>len\<close> bytes, so the
  string read ends there at the latest.)
\<close>

definition c_str :: "string \<Rightarrow> string" where
  "c_str bytes = takeWhile (\<lambda>c. c \<noteq> CHR 0x00) bytes"

text \<open>\<open>g_strndup(&name[start], n)\<close>\<close>

definition g_strndup :: "string \<Rightarrow> nat \<Rightarrow> nat \<Rightarrow> string" where
  "g_strndup name start n = take n (drop start name)"

text \<open>\<open>strcmp\<close> compares bytes as unsigned values; only the sign of the result is used.\<close>

fun strcmp :: "string \<Rightarrow> string \<Rightarrow> int" where
  "strcmp [] [] = 0"
| "strcmp [] (y # ys) = - 1"
| "strcmp (x # xs) [] = 1"
| "strcmp (x # xs) (y # ys) =
     (if x = y then strcmp xs ys
      else if (of_char x :: nat) < of_char y then - 1 else 1)"

fun strncmp :: "string \<Rightarrow> string \<Rightarrow> nat \<Rightarrow> int" where
  "strncmp s1 s2 0 = 0"
| "strncmp [] [] (Suc n) = 0"
| "strncmp [] (y # ys) (Suc n) = - 1"
| "strncmp (x # xs) [] (Suc n) = 1"
| "strncmp (x # xs) (y # ys) (Suc n) =
     (if x = y then strncmp xs ys n
      else if (of_char x :: nat) < of_char y then - 1 else 1)"

section \<open>Walker: splitting a name into tokens\<close>

text \<open>
  \<open>vp_walker_skip_sdata_enterprise_id\<close>: the do-while loop starting at the \<open>@\<close>
  character. Each round steps over one character (\<open>@\<close> or \<open>.\<close>), then over a run
  of digits, and goes on while a dot followed by a digit comes next.
\<close>

function vp_walker_skip_sdata_enterprise_id :: "string \<Rightarrow> nat \<Rightarrow> nat" where
  "vp_walker_skip_sdata_enterprise_id name pos =
     (if c_at name (pos + 1 + strspn (drop (pos + 1) name) ''0123456789'') = CHR ''.'' \<and>
         isdigit (c_at name (pos + 1 + strspn (drop (pos + 1) name) ''0123456789'' + 1))
      then vp_walker_skip_sdata_enterprise_id name
             (pos + 1 + strspn (drop (pos + 1) name) ''0123456789'')
      else pos + 1 + strspn (drop (pos + 1) name) ''0123456789'')"
  by pat_completeness auto
termination
  by (relation "measure (\<lambda>(name, pos). length name - pos)")
     (auto simp: c_at_def split: if_splits)

declare vp_walker_skip_sdata_enterprise_id.simps [simp del]

lemma vp_walker_skip_sdata_enterprise_id_advances:
  "pos < vp_walker_skip_sdata_enterprise_id name pos"
proof (induction name pos rule: vp_walker_skip_sdata_enterprise_id.induct)
  case (1 name pos)
  show ?case
    using "1.IH"
    by (subst vp_walker_skip_sdata_enterprise_id.simps) (auto simp: less_Suc_eq)
qed

text \<open>
  One round of the do-while loop of \<open>vp_walker_split_name_to_tokens\<close>: the position
  reached after \<open>strcspn\<close> and the optional enterprise-id skip.
\<close>

definition split_scan :: "string \<Rightarrow> nat \<Rightarrow> nat" where
  "split_scan name pos =
     (let pos1 = pos + strcspn (drop pos name) ''@.''
      in if c_at name pos1 = CHR ''@''
         then vp_walker_skip_sdata_enterprise_id name pos1 else pos1)"

lemma split_scan_ge: "pos \<le> split_scan name pos"
  using vp_walker_skip_sdata_enterprise_id_advances
    [of "pos + strcspn (drop pos name) ''@.''" name]
  by (simp add: split_scan_def Let_def)

function split_loop :: "string \<Rightarrow> nat \<Rightarrow> string list \<Rightarrow> string list" where
  "split_loop name pos array =
     (if c_at name (split_scan name pos) = CHR ''.'' \<or> split_scan name pos = length name
      then (if split_scan name pos + 1 < length name
            then split_loop name (split_scan name pos + 1)
                   (array @ [g_strndup name pos (split_scan name pos - pos)])
            else array @ [g_strndup name pos (split_scan name pos - pos)])
      else (if split_scan name pos < length name
            then split_loop name (split_scan name pos) array
            else array))"
  by pat_completeness auto

lemma strcspn_zero:
  "strcspn (drop pos name) reject = 0 \<Longrightarrow>
     length name \<le> pos \<or> c_at name pos \<in> set reject"
  by (cases "drop pos name")
     (auto simp: strcspn_def c_at_def hd_drop_conv_nth split: if_splits
           dest!: arg_cong [where f = hd])

lemma split_scan_fixed:
  assumes "split_scan name pos = pos"
  shows "length name \<le> pos \<or> c_at name pos = CHR ''.''"
proof -
  let ?p1 = "pos + strcspn (drop pos name) ''@.''"
  have no_at: "c_at name ?p1 \<noteq> CHR ''@''"
  proof
    assume at: "c_at name ?p1 = CHR ''@''"
    then have "split_scan name pos = vp_walker_skip_sdata_enterprise_id name ?p1"
      by (simp add: split_scan_def Let_def)
    with vp_walker_skip_sdata_enterprise_id_advances [of ?p1 name] assms
    show False by simp
  qed
  then have "split_scan name pos = ?p1"
    by (simp add: split_scan_def Let_def)
  with assms have z: "strcspn (drop pos name) ''@.'' = 0" by simp
  with no_at have "c_at name pos \<noteq> CHR ''@''" by simp
  with strcspn_zero [OF z] show ?thesis by auto
qed

termination split_loop
proof (relation "measure (\<lambda>(name, pos, array). length name - pos)")
  show "wf (measure (\<lambda>(name, pos, array). length name - pos))" by simp
next
  fix name :: string and pos :: nat and array :: "string list"
  assume "split_scan name pos + 1 < length name"
  with split_scan_ge [of pos name]
  show "((name, split_scan name pos + 1, array @ [g_strndup name pos (split_scan name pos - pos)]),
         (name, pos, array)) \<in> measure (\<lambda>(name, pos, array). length name - pos)"
    by simp
next
  fix name :: string and pos :: nat and array :: "string list"
  assume a: "\<not> (c_at name (split_scan name pos) = CHR ''.'' \<or> split_scan name pos = length name)"
    and b: "split_scan name pos < length name"
  have "split_scan name pos \<noteq> pos"
    using split_scan_fixed [of name pos] a b by auto
  with split_scan_ge [of pos name] b
  show "((name, split_scan name pos, array), (name, pos, array))
          \<in> measure (\<lambda>(name, pos, array). length name - pos)"
    by simp
qed

declare split_loop.simps [simp del]

text \<open>
  \<open>vp_walker_split_name_to_tokens\<close> returns \<open>NULL\<close> (here \<open>None\<close>) for an
  empty token array.
\<close>

definition vp_walker_split_name_to_tokens :: "string \<Rightarrow> string list option" where
  "vp_walker_split_name_to_tokens name =
     (let array = split_loop name 0 [] in if length array = 0 then None else Some array)"


section \<open>Data model of value-pairs\<close>

type_synonym guint32 = "32 word"
type_synonym NVHandle = nat

definition VPS_NV_PAIRS :: guint32 where "VPS_NV_PAIRS = 0x01"
definition VPS_DOT_NV_PAIRS :: guint32 where "VPS_DOT_NV_PAIRS = 0x02"
definition VPS_RFC3164 :: guint32 where "VPS_RFC3164 = 0x04"
definition VPS_RFC5424 :: guint32 where "VPS_RFC5424 = 0x08"
definition VPS_ALL_MACROS :: guint32 where "VPS_ALL_MACROS = 0x10"
definition VPS_SELECTED_MACROS :: guint32 where "VPS_SELECTED_MACROS = 0x20"
definition VPS_SDATA :: guint32 where "VPS_SDATA = 0x40"
definition VPS_EVERYTHING :: guint32 where "VPS_EVERYTHING = 0x7f"

text \<open>
  Modelled from the spec: the type hint enumeration of \<open>type-hinting.h\<close>, an opaque
  tag carrying at least \<open>STRING\<close> and the tags of the template type parser.
\<close>

datatype TypeHint =
  TYPE_HINT_STRING | TYPE_HINT_LITERAL | TYPE_HINT_BOOLEAN | TYPE_HINT_INT32
| TYPE_HINT_INT64 | TYPE_HINT_DOUBLE | TYPE_HINT_DATETIME | TYPE_HINT_DEFAULT

text \<open>A scratch buffer with a type hint: the values stored in the result tree.\<close>

record SBTHGString =
  sb_type_hint :: TypeHint
  sb_string :: string

text \<open>A compiled template: its source text and its type hint.\<close>

record LogTemplate =
  template_text :: string
  template_type_hint :: TypeHint

record VPPatternSpec =
  pattern :: string
  incl :: bool

record VPPairConf =
  pair_name :: string
  pair_template :: LogTemplate

datatype vp_type = VPT_MACRO | VPT_NVPAIR

record ValuePairSpec =
  spec_name :: string
  spec_alt_name :: "string option"
  spec_type :: vp_type
  spec_id :: nat

text \<open>
  Modelled from the spec: the key transformations of \<open>vptransform.c\<close> (section 4.3 of
  the specification): shift drops the first \<open>n\<close> bytes, add-prefix prepends a
  string, replace-prefix swaps a leading string for another; a transformation set
  applies its steps in order, to every key.
\<close>

datatype ValuePairsTransform =
  Shift nat | AddPrefix string | ReplacePrefix string string

record ValuePairsTransformSet =
  ts_key :: string
  ts_transforms :: "ValuePairsTransform list"

fun value_pairs_transform_apply :: "ValuePairsTransform \<Rightarrow> string \<Rightarrow> string" where
  "value_pairs_transform_apply (Shift n) key = drop n key"
| "value_pairs_transform_apply (AddPrefix s) key = s @ key"
| "value_pairs_transform_apply (ReplacePrefix from to) key =
     (if take (length from) key = from then to @ drop (length from) key else key)"

definition value_pairs_transform_set_apply :: "ValuePairsTransformSet \<Rightarrow> string \<Rightarrow> string" where
  "value_pairs_transform_set_apply t key = fold value_pairs_transform_apply (ts_transforms t) key"

definition value_pairs_transform_set_new :: "string \<Rightarrow> ValuePairsTransformSet" where
  "value_pairs_transform_set_new key = \<lparr>ts_key = key, ts_transforms = []\<rparr>"

definition value_pairs_transform_set_add_func ::
  "ValuePairsTransformSet \<Rightarrow> ValuePairsTransform \<Rightarrow> ValuePairsTransformSet" where
  "value_pairs_transform_set_add_func vpts f = vpts\<lparr>ts_transforms := ts_transforms vpts @ [f]\<rparr>"

text \<open>
  The configured object. \<open>patterns_size\<close> is the length of \<open>patterns\<close>; the
  reference counter is left out.
\<close>

record ValuePairs =
  patterns :: "VPPatternSpec list"
  vpairs :: "VPPairConf list"
  transforms :: "ValuePairsTransformSet list"
  scopes :: guint32

definition patterns_size :: "ValuePairs \<Rightarrow> nat" where
  "patterns_size vp = length (patterns vp)"

text \<open>The parameters that an evaluation passes through to the collaborators.\<close>

record 'm vp_eval =
  ev_msg :: 'm
  ev_seq_num :: int
  ev_time_zone_mode :: int
  ev_template_options :: nat

text \<open>
  The collaborators outside of \<open>value-pairs.c\<close>: the glob matcher of GLib, the
  message store, the macro registry, the template engine and the pool of scratch buffers.
  \<open>nv_table_foreach\<close> gives the name-value pairs of a message in the order of
  enumeration, each as handle, name and value; \<open>macros\<close> is the table of all
  macros, as name and id; \<open>scratch_type_hint\<close> is the type hint of a scratch buffer as
  the pool hands it out. The macro expansion and the template engine append what they
  render to the buffer they are given.
\<close>

record 'm collaborators =
  g_pattern_match_string :: "string \<Rightarrow> string \<Rightarrow> bool"
  nv_table_foreach :: "'m \<Rightarrow> (NVHandle \<times> string \<times> string) list"
  log_msg_is_handle_sdata :: "NVHandle \<Rightarrow> bool"
  log_msg_get_value :: "'m \<Rightarrow> NVHandle \<Rightarrow> string"
  log_msg_get_value_handle :: "string \<Rightarrow> NVHandle"
  log_macro_lookup :: "string \<Rightarrow> nat"
  log_macro_expand :: "nat \<Rightarrow> 'm vp_eval \<Rightarrow> string"
  log_template_append_format :: "LogTemplate \<Rightarrow> 'm vp_eval \<Rightarrow> string"
  macros :: "(string \<times> nat) list"
  scratch_type_hint :: TypeHint

text \<open>
  A scratch buffer as the pool hands it out: the pool has reset its string to the empty
  string, and the type hint is what the pool has left in it. \<open>g_string_append_len\<close>
  appends bytes to the string of a buffer.
\<close>

definition sb_th_gstring_acquire :: "'m collaborators \<Rightarrow> SBTHGString" where
  "sb_th_gstring_acquire E = \<lparr>sb_type_hint = scratch_type_hint E, sb_string = []\<rparr>"

definition g_string_append_len :: "SBTHGString \<Rightarrow> string \<Rightarrow> SBTHGString" where
  "g_string_append_len sb bytes = sb\<lparr>sb_string := sb_string sb @ bytes\<rparr>"

lemma g_string_append_len_acquired [simp]:
  "g_string_append_len (sb_th_gstring_acquire E) bytes =
     (sb_th_gstring_acquire E)\<lparr>sb_string := bytes\<rparr>"
  "g_string_append_len ((sb_th_gstring_acquire E)\<lparr>sb_type_hint := h\<rparr>) bytes =
     (sb_th_gstring_acquire E)\<lparr>sb_type_hint := h, sb_string := bytes\<rparr>"
  by (simp_all add: g_string_append_len_def sb_th_gstring_acquire_def)

subsection \<open>The static tables\<close>

definition value_pair_spec :: "string \<Rightarrow> ValuePairSpec" where
  "value_pair_spec n = \<lparr>spec_name = n, spec_alt_name = None, spec_type = VPT_MACRO, spec_id = 0\<rparr>"

definition rfc3164 :: "ValuePairSpec list" where
  "rfc3164 = map value_pair_spec
     [''FACILITY'', ''PRIORITY'', ''HOST'', ''PROGRAM'', ''PID'', ''MESSAGE'', ''DATE'']"

definition rfc5424 :: "ValuePairSpec list" where
  "rfc5424 = map value_pair_spec [''MSGID'']"

definition selected_macros :: "ValuePairSpec list" where
  "selected_macros = map value_pair_spec [''TAGS'', ''SOURCEIP'', ''SEQNUM'']"

definition value_pairs_init_entry :: "'m collaborators \<Rightarrow> ValuePairSpec \<Rightarrow> ValuePairSpec" where
  "value_pairs_init_entry E s =
     (let name = (case spec_alt_name s of Some a \<Rightarrow> a | None \<Rightarrow> spec_name s);
          id = log_macro_lookup E name
      in if id \<noteq> 0 then s\<lparr>spec_type := VPT_MACRO, spec_id := id\<rparr>
         else s\<lparr>spec_type := VPT_NVPAIR, spec_id := log_msg_get_value_handle E name\<rparr>)"

definition value_pairs_init_set :: "'m collaborators \<Rightarrow> ValuePairSpec list \<Rightarrow> ValuePairSpec list" where
  "value_pairs_init_set E tbl = map (value_pairs_init_entry E) tbl"

text \<open>\<open>all_macros\<close> as \<open>value_pairs_new\<close> builds it from the table of macros.\<close>

definition all_macros :: "'m collaborators \<Rightarrow> ValuePairSpec list" where
  "all_macros E =
     map (\<lambda>(n, i). \<lparr>spec_name = n, spec_alt_name = None, spec_type = VPT_MACRO, spec_id = i\<rparr>)
       (macros E)"

subsection \<open>The result tree\<close>

text \<open>
  The balanced tree of GLib is modelled by its in-order list of nodes together with its
  comparison function. Inserting at a key that compares equal to a node's replaces the
  value of that node.
\<close>

record 'v GTree =
  key_compare :: "string \<Rightarrow> string \<Rightarrow> int"
  nodes :: "(string \<times> 'v) list"

definition g_tree_new_full :: "(string \<Rightarrow> string \<Rightarrow> int) \<Rightarrow> 'v GTree" where
  "g_tree_new_full cmp = \<lparr>key_compare = cmp, nodes = []\<rparr>"

fun g_tree_insert_node ::
  "(string \<Rightarrow> string \<Rightarrow> int) \<Rightarrow> string \<Rightarrow> 'v \<Rightarrow> (string \<times> 'v) list \<Rightarrow> (string \<times> 'v) list" where
  "g_tree_insert_node cmp k v [] = [(k, v)]"
| "g_tree_insert_node cmp k v ((k', v') # ns) =
     (if cmp k k' = 0 then (k', v) # ns
      else if cmp k k' < 0 then (k, v) # (k', v') # ns
      else (k', v') # g_tree_insert_node cmp k v ns)"

definition g_tree_insert :: "'v GTree \<Rightarrow> string \<Rightarrow> 'v \<Rightarrow> 'v GTree" where
  "g_tree_insert t k v = t\<lparr>nodes := g_tree_insert_node (key_compare t) k v (nodes t)\<rparr>"

text \<open>In-order traversal; it stops as soon as the traversal function returns true.\<close>

fun g_tree_foreach_nodes ::
  "(string \<Rightarrow> 'v \<Rightarrow> 's \<Rightarrow> bool \<times> 's) \<Rightarrow> (string \<times> 'v) list \<Rightarrow> 's \<Rightarrow> 's" where
  "g_tree_foreach_nodes f [] s = s"
| "g_tree_foreach_nodes f ((k, v) # ns) s =
     (case f k v s of (stop, s') \<Rightarrow> if stop then s' else g_tree_foreach_nodes f ns s')"

definition g_tree_foreach :: "'v GTree \<Rightarrow> (string \<Rightarrow> 'v \<Rightarrow> 's \<Rightarrow> bool \<times> 's) \<Rightarrow> 's \<Rightarrow> 's" where
  "g_tree_foreach t f s = g_tree_foreach_nodes f (nodes t) s"

section \<open>Selecting and merging the pairs of a message\<close>

definition vp_pattern_spec_eval :: "'m collaborators \<Rightarrow> VPPatternSpec \<Rightarrow> string \<Rightarrow> bool" where
  "vp_pattern_spec_eval E self input = g_pattern_match_string E (pattern self) input"

definition vp_transform_apply :: "ValuePairs \<Rightarrow> string \<Rightarrow> string" where
  "vp_transform_apply vp key =
     (if transforms vp = [] then key
      else fold value_pairs_transform_set_apply (transforms vp) key)"

text \<open>
  The loop over the patterns, as it stands in \<open>vp_find_in_set\<close> and in
  \<open>vp_msg_nvpairs_foreach\<close>: each matching pattern overwrites the inclusion bit.
\<close>

fun vp_patterns_loop :: "'m collaborators \<Rightarrow> VPPatternSpec list \<Rightarrow> string \<Rightarrow> bool \<Rightarrow> bool" where
  "vp_patterns_loop E [] name inc = inc"
| "vp_patterns_loop E (p # ps) name inc =
     vp_patterns_loop E ps name (if vp_pattern_spec_eval E p name then incl p else inc)"

definition vp_find_in_set :: "'m collaborators \<Rightarrow> ValuePairs \<Rightarrow> string \<Rightarrow> bool \<Rightarrow> bool" where
  "vp_find_in_set E vp name exclude = vp_patterns_loop E (patterns vp) name exclude"

text \<open>The explicit pairs of the configuration (\<open>vp_pairs_foreach\<close>).\<close>

definition vp_pairs_foreach ::
  "'m collaborators \<Rightarrow> ValuePairs \<Rightarrow> 'm vp_eval \<Rightarrow> VPPairConf \<Rightarrow> SBTHGString GTree \<Rightarrow> SBTHGString GTree" where
  "vp_pairs_foreach E vp ev vpc scope_set =
     (let sb = g_string_append_len
                 ((sb_th_gstring_acquire E)
                    \<lparr>sb_type_hint := template_type_hint (pair_template vpc)\<rparr>)
                 (log_template_append_format E (pair_template vpc) ev)
      in if length (sb_string sb) = 0 then scope_set
         else g_tree_insert scope_set (vp_transform_apply vp (pair_name vpc)) sb)"

text \<open>The inclusion bit of a name-value pair of the message before the patterns are consulted.\<close>

definition vp_msg_nvpairs_inc :: "'m collaborators \<Rightarrow> ValuePairs \<Rightarrow> NVHandle \<Rightarrow> string \<Rightarrow> bool" where
  "vp_msg_nvpairs_inc E vp handle name =
     ((c_at name 0 = CHR ''.'' \<and> scopes vp AND VPS_DOT_NV_PAIRS \<noteq> 0) \<or>
      (c_at name 0 \<noteq> CHR ''.'' \<and> scopes vp AND VPS_NV_PAIRS \<noteq> 0) \<or>
      (log_msg_is_handle_sdata E handle \<and> scopes vp AND (VPS_SDATA + VPS_RFC5424) \<noteq> 0))"

definition vp_msg_nvpairs_foreach ::
  "'m collaborators \<Rightarrow> ValuePairs \<Rightarrow> NVHandle \<times> string \<times> string \<Rightarrow>
     SBTHGString GTree \<Rightarrow> SBTHGString GTree" where
  "vp_msg_nvpairs_foreach E vp nv scope_set =
     (case nv of (handle, name, value) \<Rightarrow>
        if length value = 0 then scope_set
        else if \<not> vp_patterns_loop E (patterns vp) name (vp_msg_nvpairs_inc E vp handle name)
        then scope_set
        else g_tree_insert scope_set (vp_transform_apply vp name)
               ((g_string_append_len (sb_th_gstring_acquire E) value)
                  \<lparr>sb_type_hint := TYPE_HINT_STRING\<rparr>))"

text \<open>Rendering one entry of a table: a macro is expanded, a name-value pair is read.\<close>

definition vp_spec_render :: "'m collaborators \<Rightarrow> 'm vp_eval \<Rightarrow> ValuePairSpec \<Rightarrow> string" where
  "vp_spec_render E ev s =
     (case spec_type s of
        VPT_MACRO \<Rightarrow> log_macro_expand E (spec_id s) ev
      | VPT_NVPAIR \<Rightarrow> log_msg_get_value E (ev_msg ev) (spec_id s))"

fun vp_merge_other_set ::
  "'m collaborators \<Rightarrow> ValuePairs \<Rightarrow> 'm vp_eval \<Rightarrow> ValuePairSpec list \<Rightarrow>
     SBTHGString GTree \<Rightarrow> bool \<Rightarrow> SBTHGString GTree" where
  "vp_merge_other_set E vp ev [] dest exclude = dest"
| "vp_merge_other_set E vp ev (s # tbl) dest exclude =
     (if \<not> vp_find_in_set E vp (spec_name s) exclude
      then vp_merge_other_set E vp ev tbl dest exclude
      else if length (sb_string (g_string_append_len (sb_th_gstring_acquire E)
                                   (vp_spec_render E ev s))) = 0
      then vp_merge_other_set E vp ev tbl dest exclude
      else vp_merge_other_set E vp ev tbl
             (g_tree_insert dest (vp_transform_apply vp (spec_name s))
                (g_string_append_len (sb_th_gstring_acquire E) (vp_spec_render E ev s)))
             exclude)"

definition vp_merge_macros ::
  "'m collaborators \<Rightarrow> ValuePairs \<Rightarrow> 'm vp_eval \<Rightarrow> SBTHGString GTree \<Rightarrow> SBTHGString GTree" where
  "vp_merge_macros E vp ev dest = vp_merge_other_set E vp ev (all_macros E) dest False"

definition vp_merge_set ::
  "'m collaborators \<Rightarrow> ValuePairs \<Rightarrow> 'm vp_eval \<Rightarrow> ValuePairSpec list \<Rightarrow>
     SBTHGString GTree \<Rightarrow> SBTHGString GTree" where
  "vp_merge_set E vp ev tbl dest = vp_merge_other_set E vp ev tbl dest True"


section \<open>Evaluation: \<open>value_pairs_foreach_sorted\<close>\<close>

text \<open>
  A consumer callback of the flat traversal gets name, type hint and value, works on its
  own data and returns true to signal a failure.
\<close>

type_synonym 'u VPForeachFunc = "string \<Rightarrow> TypeHint \<Rightarrow> string \<Rightarrow> 'u \<Rightarrow> bool \<times> 'u"

text \<open>
  The traversal state of \<open>vp_foreach_helper\<close> is the consumer's data with the result
  flag \<open>r\<close>; the helper returns \<open>!*r\<close>, which stops the traversal. The callback gets
  the value as the pointer \<open>str\<close> of the buffer, without its length.
\<close>

definition vp_foreach_helper ::
  "'u VPForeachFunc \<Rightarrow> string \<Rightarrow> SBTHGString \<Rightarrow> 'u \<times> bool \<Rightarrow> bool \<times> ('u \<times> bool)" where
  "vp_foreach_helper func name hinted_value s =
     (case s of (user_data, r) \<Rightarrow>
        (case func name (sb_type_hint hinted_value) (c_str (sb_string hinted_value)) user_data of
           (failed, user_data') \<Rightarrow> (\<not> (r \<and> \<not> failed), (user_data', r \<and> \<not> failed))))"

text \<open>The steps of "build up the base set", in the order of the source.\<close>

definition base_set_nvpairs ::
  "'m collaborators \<Rightarrow> ValuePairs \<Rightarrow> 'm vp_eval \<Rightarrow> SBTHGString GTree \<Rightarrow> SBTHGString GTree" where
  "base_set_nvpairs E vp ev scope_set =
     (if scopes vp AND (VPS_NV_PAIRS + VPS_DOT_NV_PAIRS + VPS_SDATA + VPS_RFC5424) \<noteq> 0 \<or>
         patterns_size vp > 0
      then fold (vp_msg_nvpairs_foreach E vp) (nv_table_foreach E (ev_msg ev)) scope_set
      else scope_set)"

definition base_set_macros ::
  "'m collaborators \<Rightarrow> ValuePairs \<Rightarrow> 'm vp_eval \<Rightarrow> SBTHGString GTree \<Rightarrow> SBTHGString GTree" where
  "base_set_macros E vp ev scope_set =
     (if patterns_size vp > 0 then vp_merge_macros E vp ev scope_set else scope_set)"

definition base_set_rfc3164 ::
  "'m collaborators \<Rightarrow> ValuePairs \<Rightarrow> 'm vp_eval \<Rightarrow> SBTHGString GTree \<Rightarrow> SBTHGString GTree" where
  "base_set_rfc3164 E vp ev scope_set =
     (if scopes vp AND (VPS_RFC3164 + VPS_RFC5424 + VPS_SELECTED_MACROS) \<noteq> 0
      then vp_merge_set E vp ev (value_pairs_init_set E rfc3164) scope_set else scope_set)"

definition base_set_rfc5424 ::
  "'m collaborators \<Rightarrow> ValuePairs \<Rightarrow> 'm vp_eval \<Rightarrow> SBTHGString GTree \<Rightarrow> SBTHGString GTree" where
  "base_set_rfc5424 E vp ev scope_set =
     (if scopes vp AND VPS_RFC5424 \<noteq> 0
      then vp_merge_set E vp ev (value_pairs_init_set E rfc5424) scope_set else scope_set)"

definition base_set_selected_macros ::
  "'m collaborators \<Rightarrow> ValuePairs \<Rightarrow> 'm vp_eval \<Rightarrow> SBTHGString GTree \<Rightarrow> SBTHGString GTree" where
  "base_set_selected_macros E vp ev scope_set =
     (if scopes vp AND VPS_SELECTED_MACROS \<noteq> 0
      then vp_merge_set E vp ev (value_pairs_init_set E selected_macros) scope_set
      else scope_set)"

definition base_set_all_macros ::
  "'m collaborators \<Rightarrow> ValuePairs \<Rightarrow> 'm vp_eval \<Rightarrow> SBTHGString GTree \<Rightarrow> SBTHGString GTree" where
  "base_set_all_macros E vp ev scope_set =
     (if scopes vp AND VPS_ALL_MACROS \<noteq> 0
      then vp_merge_set E vp ev (all_macros E) scope_set else scope_set)"

definition base_set_pairs ::
  "'m collaborators \<Rightarrow> ValuePairs \<Rightarrow> 'm vp_eval \<Rightarrow> SBTHGString GTree \<Rightarrow> SBTHGString GTree" where
  "base_set_pairs E vp ev scope_set = fold (vp_pairs_foreach E vp ev) (vpairs vp) scope_set"

text \<open>The tree that \<open>value_pairs_foreach_sorted\<close> hands to the traversal.\<close>

definition value_pairs_scope_set ::
  "'m collaborators \<Rightarrow> ValuePairs \<Rightarrow> (string \<Rightarrow> string \<Rightarrow> int) \<Rightarrow> 'm vp_eval \<Rightarrow> SBTHGString GTree" where
  "value_pairs_scope_set E vp compare_func ev =
     base_set_pairs E vp ev
       (base_set_all_macros E vp ev
         (base_set_selected_macros E vp ev
           (base_set_rfc5424 E vp ev
             (base_set_rfc3164 E vp ev
               (base_set_macros E vp ev
                 (base_set_nvpairs E vp ev (g_tree_new_full compare_func)))))))"

definition value_pairs_foreach_sorted ::
  "'m collaborators \<Rightarrow> ValuePairs \<Rightarrow> 'u VPForeachFunc \<Rightarrow> (string \<Rightarrow> string \<Rightarrow> int) \<Rightarrow>
     'm vp_eval \<Rightarrow> 'u \<Rightarrow> bool \<times> 'u" where
  "value_pairs_foreach_sorted E vp func compare_func ev user_data =
     (case g_tree_foreach (value_pairs_scope_set E vp compare_func ev)
             (vp_foreach_helper func) (user_data, True) of
        (user_data', result) \<Rightarrow> (result, user_data'))"

definition value_pairs_foreach ::
  "'m collaborators \<Rightarrow> ValuePairs \<Rightarrow> 'u VPForeachFunc \<Rightarrow> 'm vp_eval \<Rightarrow> 'u \<Rightarrow> bool \<times> 'u" where
  "value_pairs_foreach E vp func ev user_data =
     value_pairs_foreach_sorted E vp func strcmp ev user_data"

section \<open>The walker\<close>

text \<open>
  A frame of the walker's stack. \<open>wk_data\<close> is the pointer-sized slot of the consumer,
  \<open>None\<close> for \<open>NULL\<close>.
\<close>

record 'd vp_walk_stack_data_t =
  wk_key :: string
  wk_prefix :: string
  wk_prefix_len :: nat
  wk_data :: "'d option"

text \<open>
  The container callbacks get key, prefix, a pointer to the slot of the frame, the prefix
  of the parent, a pointer to the slot of the parent, and the consumer's data. A pointer
  that is \<open>NULL\<close> is \<open>None\<close>. A callback returns its flag, what it leaves in the two
  slots, and the consumer's data; the walker drops what is returned for a slot whose
  pointer was \<open>NULL\<close>.
\<close>

type_synonym ('d, 'u) VPWalkCallbackFunc =
  "string option \<Rightarrow> string option \<Rightarrow> 'd option option \<Rightarrow> string option \<Rightarrow> 'd option option \<Rightarrow>
     'u \<Rightarrow> bool \<times> 'd option \<times> 'd option \<times> 'u"

type_synonym ('d, 'u) VPWalkValueCallbackFunc =
  "string \<Rightarrow> string option \<Rightarrow> TypeHint \<Rightarrow> string \<Rightarrow> 'd option option \<Rightarrow>
     'u \<Rightarrow> bool \<times> 'd option \<times> 'u"

text \<open>The head of \<open>stack\<close> is the top of the stack.\<close>

record ('d, 'u) vp_walk_state_t =
  obj_start :: "('d, 'u) VPWalkCallbackFunc"
  obj_end :: "('d, 'u) VPWalkCallbackFunc"
  process_value :: "('d, 'u) VPWalkValueCallbackFunc"
  user_data :: 'u
  stack :: "'d vp_walk_stack_data_t list"

definition vp_walker_stack_push :: "string \<Rightarrow> string \<Rightarrow> 'd vp_walk_stack_data_t" where
  "vp_walker_stack_push key prefix =
     \<lparr>wk_key = key, wk_prefix = prefix, wk_prefix_len = length prefix, wk_data = None\<rparr>"

text \<open>The test \<open>name && strncmp(name, t->prefix, t->prefix_len) == 0\<close>.\<close>

definition unwind_matches :: "string option \<Rightarrow> 'd vp_walk_stack_data_t \<Rightarrow> bool" where
  "unwind_matches name t =
     (case name of None \<Rightarrow> False
      | Some n \<Rightarrow> strncmp n (wk_prefix t) (wk_prefix_len t) = 0)"

fun unwind_containers ::
  "('d, 'u) VPWalkCallbackFunc \<Rightarrow> string option \<Rightarrow> 'd vp_walk_stack_data_t list \<Rightarrow> 'u \<Rightarrow>
     'd vp_walk_stack_data_t list \<times> 'u" where
  "unwind_containers oe name [] u = ([], u)"
| "unwind_containers oe name [t] u =
     (if unwind_matches name t then ([t], u)
      else case oe (Some (wk_key t)) (Some (wk_prefix t)) (Some (wk_data t)) None None u of
             (r, d, pd, u') \<Rightarrow> unwind_containers oe name [] u')"
| "unwind_containers oe name (t # p # st) u =
     (if unwind_matches name t then (t # p # st, u)
      else case oe (Some (wk_key t)) (Some (wk_prefix t)) (Some (wk_data t))
                  (Some (wk_prefix p)) (Some (wk_data p)) u of
             (r, d, pd, u') \<Rightarrow> unwind_containers oe name (p\<lparr>wk_data := pd\<rparr> # st) u')"

definition vp_walker_stack_unwind_containers_until ::
  "('d, 'u) vp_walk_state_t \<Rightarrow> string option \<Rightarrow> ('d, 'u) vp_walk_state_t" where
  "vp_walker_stack_unwind_containers_until state name =
     (case unwind_containers (obj_end state) name (stack state) (user_data state) of
        (st, u) \<Rightarrow> state\<lparr>stack := st, user_data := u\<rparr>)"

definition vp_walker_stack_unwind_all_containers ::
  "('d, 'u) vp_walk_state_t \<Rightarrow> ('d, 'u) vp_walk_state_t" where
  "vp_walker_stack_unwind_all_containers state =
     vp_walker_stack_unwind_containers_until state None"

definition vp_walker_name_combine_prefix :: "string list \<Rightarrow> nat \<Rightarrow> string" where
  "vp_walker_name_combine_prefix tokens until =
     concat (map (\<lambda>t. t @ ''.'') (take until tokens)) @ tokens ! until"

text \<open>
  The loop of \<open>vp_walker_start_containers_for_name\<close> that opens a container for each
  token from the height of the stack up to the last but one.
\<close>

function start_containers ::
  "('d, 'u) VPWalkCallbackFunc \<Rightarrow> string list \<Rightarrow> nat \<Rightarrow> 'd vp_walk_stack_data_t list \<Rightarrow> 'u \<Rightarrow>
     'd vp_walk_stack_data_t list \<times> 'u" where
  "start_containers os tokens i st u =
     (if i < length tokens - 1
      then (case st of
              [] \<Rightarrow>
                (case os (Some (tokens ! i)) (Some (vp_walker_name_combine_prefix tokens i))
                        (Some None) None None u of
                   (r, d, pd, u') \<Rightarrow>
                     start_containers os tokens (i + 1)
                       [(vp_walker_stack_push (tokens ! i)
                           (vp_walker_name_combine_prefix tokens i))\<lparr>wk_data := d\<rparr>] u')
            | p # st' \<Rightarrow>
                (case os (Some (tokens ! i)) (Some (vp_walker_name_combine_prefix tokens i))
                        (Some None) (Some (wk_prefix p)) (Some (wk_data p)) u of
                   (r, d, pd, u') \<Rightarrow>
                     start_containers os tokens (i + 1)
                       ((vp_walker_stack_push (tokens ! i)
                           (vp_walker_name_combine_prefix tokens i))\<lparr>wk_data := d\<rparr>
                        # p\<lparr>wk_data := pd\<rparr> # st') u'))
      else (st, u))"
  by pat_completeness auto
termination
  by (relation "measure (\<lambda>(os, tokens, i, st, u). length tokens - 1 - i)") auto

declare start_containers.simps [simp del]

text \<open>
  \<open>vp_walker_start_containers_for_name\<close> returns the key, which is the last token. The
  source dereferences the token array without a test for \<open>NULL\<close>; that branch is never
  taken, since the array of tokens is never empty (lemma
  \<open>vp_walker_split_name_to_tokens_not_NULL\<close> below), and the model leaves the state as
  it is there.
\<close>

definition vp_walker_start_containers_for_name ::
  "('d, 'u) vp_walk_state_t \<Rightarrow> string \<Rightarrow> string \<times> ('d, 'u) vp_walk_state_t" where
  "vp_walker_start_containers_for_name state name =
     (case vp_walker_split_name_to_tokens name of
        None \<Rightarrow> ([], state)
      | Some tokens \<Rightarrow>
          (case start_containers (obj_start state) tokens (length (stack state))
                  (stack state) (user_data state) of
             (st, u) \<Rightarrow> (tokens ! (length tokens - 1), state\<lparr>stack := st, user_data := u\<rparr>)))"

definition value_pairs_walker :: "('d, 'u) vp_walk_state_t VPForeachFunc" where
  "value_pairs_walker name type val state =
     (case vp_walker_start_containers_for_name
             (vp_walker_stack_unwind_containers_until state (Some name)) name of
        (key, state') \<Rightarrow>
          (case stack state' of
             [] \<Rightarrow>
               (case process_value state' key None type val None (user_data state') of
                  (result, d, u') \<Rightarrow> (result, state'\<lparr>user_data := u'\<rparr>))
           | data # st \<Rightarrow>
               (case process_value state' key (Some (wk_prefix data)) type val
                       (Some (wk_data data)) (user_data state') of
                  (result, d, u') \<Rightarrow>
                    (result, state'\<lparr>stack := data\<lparr>wk_data := d\<rparr> # st, user_data := u'\<rparr>))))"

definition vp_walk_cmp :: "string \<Rightarrow> string \<Rightarrow> int" where
  "vp_walk_cmp s1 s2 = strcmp s2 s1"

definition value_pairs_walk ::
  "'m collaborators \<Rightarrow> ValuePairs \<Rightarrow> ('d, 'u) VPWalkCallbackFunc \<Rightarrow>
     ('d, 'u) VPWalkValueCallbackFunc \<Rightarrow> ('d, 'u) VPWalkCallbackFunc \<Rightarrow> 'm vp_eval \<Rightarrow> 'u \<Rightarrow>
     bool \<times> 'u" where
  "value_pairs_walk E vp obj_start_func process_value_func obj_end_func ev user_data0 =
     (case obj_start_func None None None None None user_data0 of
        (r1, d1, pd1, u1) \<Rightarrow>
          (case value_pairs_foreach_sorted E vp value_pairs_walker vp_walk_cmp ev
                  \<lparr>obj_start = obj_start_func, obj_end = obj_end_func,
                   process_value = process_value_func, user_data = u1, stack = []\<rparr> of
             (result, state) \<Rightarrow>
               (case obj_end_func None None None None None
                       (user_data (vp_walker_stack_unwind_all_containers state)) of
                  (r2, d2, pd2, u2) \<Rightarrow> (result, u2))))"


section \<open>The builder and its command line\<close>

definition value_pairs_new :: ValuePairs where
  "value_pairs_new = \<lparr>patterns = [], vpairs = [], transforms = [], scopes = 0\<rparr>"

definition value_pair_scope :: "(string \<times> guint32) list" where
  "value_pair_scope =
     [(''nv-pairs'', VPS_NV_PAIRS),
      (''dot-nv-pairs'', VPS_DOT_NV_PAIRS),
      (''all-nv-pairs'', VPS_NV_PAIRS OR VPS_DOT_NV_PAIRS),
      (''rfc3164'', VPS_RFC3164),
      (''core'', VPS_RFC3164),
      (''base'', VPS_RFC3164),
      (''rfc5424'', VPS_RFC5424),
      (''syslog-proto'', VPS_RFC5424),
      (''all-macros'', VPS_ALL_MACROS),
      (''selected-macros'', VPS_SELECTED_MACROS),
      (''sdata'', VPS_SDATA),
      (''everything'', VPS_EVERYTHING)]"

text \<open>
  Modelled from the spec: \<open>cfg_process_flag\<close> of \<open>cfg-parser.c\<close> with the handler
  \<open>CFH_SET\<close>. A scope name of the table sets the named bits in the mask, by a bitwise
  or (section 6 of the specification); any other name is refused.
\<close>

definition cfg_process_flag ::
  "(string \<times> guint32) list \<Rightarrow> ValuePairs \<Rightarrow> string \<Rightarrow> ValuePairs option" where
  "cfg_process_flag handlers vp flag =
     (case map_of handlers flag of
        None \<Rightarrow> None
      | Some bits \<Rightarrow> Some (vp\<lparr>scopes := scopes vp OR bits\<rparr>))"

definition value_pairs_add_scope :: "ValuePairs \<Rightarrow> string \<Rightarrow> ValuePairs option" where
  "value_pairs_add_scope vp scope = cfg_process_flag value_pair_scope vp scope"

definition value_pairs_add_glob_pattern :: "ValuePairs \<Rightarrow> string \<Rightarrow> bool \<Rightarrow> ValuePairs" where
  "value_pairs_add_glob_pattern vp pat include =
     vp\<lparr>patterns := patterns vp @ [\<lparr>pattern = pat, incl = include\<rparr>]\<rparr>"

definition value_pairs_add_pair :: "ValuePairs \<Rightarrow> string \<Rightarrow> LogTemplate \<Rightarrow> ValuePairs" where
  "value_pairs_add_pair vp key val =
     vp\<lparr>vpairs := vpairs vp @ [\<lparr>pair_name = key, pair_template = val\<rparr>]\<rparr>"

definition value_pairs_add_transforms :: "ValuePairs \<Rightarrow> ValuePairsTransformSet \<Rightarrow> ValuePairs" where
  "value_pairs_add_transforms vp vpts = vp\<lparr>transforms := transforms vp @ [vpts]\<rparr>"

definition value_pairs_new_default :: "ValuePairs option" where
  "value_pairs_new_default =
     (case value_pairs_add_scope value_pairs_new ''selected-macros'' of
        None \<Rightarrow> None
      | Some vp1 \<Rightarrow>
          (case value_pairs_add_scope vp1 ''nv-pairs'' of
             None \<Rightarrow> None
           | Some vp2 \<Rightarrow> value_pairs_add_scope vp2 ''sdata''))"

text \<open>
  \<open>g_strsplit\<close> of GLib with a delimiter of one character: without a limit on the
  pieces (an empty string gives no piece), and with at most two pieces.
\<close>

fun strsplit_pieces :: "char \<Rightarrow> string \<Rightarrow> string \<Rightarrow> string list" where
  "strsplit_pieces c [] cur = [cur]"
| "strsplit_pieces c (x # xs) cur =
     (if x = c then cur # strsplit_pieces c xs [] else strsplit_pieces c xs (cur @ [x]))"

definition g_strsplit :: "string \<Rightarrow> char \<Rightarrow> string list" where
  "g_strsplit s c = (if s = [] then [] else strsplit_pieces c s [])"

definition g_strsplit2 :: "string \<Rightarrow> char \<Rightarrow> string \<times> string" where
  "g_strsplit2 s c = (takeWhile (\<lambda>x. x \<noteq> c) s, drop 1 (dropWhile (\<lambda>x. x \<noteq> c) s))"

definition strchr :: "string \<Rightarrow> char \<Rightarrow> nat option" where
  "strchr s c = (if c \<in> set s then Some (length (takeWhile (\<lambda>x. x \<noteq> c) s)) else None)"

definition g_ascii_isalpha :: "char \<Rightarrow> bool" where
  "g_ascii_isalpha c =
     (c \<in> set ''abcdefghijklmnopqrstuvwxyz'' \<or> c \<in> set ''ABCDEFGHIJKLMNOPQRSTUVWXYZ'')"

definition g_ascii_isalnum :: "char \<Rightarrow> bool" where
  "g_ascii_isalnum c = (g_ascii_isalpha c \<or> isdigit c)"

text \<open>
  \<open>value_pairs_parse_type\<close> splits \<open>TYPE(VALUE)\<close> into the value and the type, or
  gives back the whole as the value with no type. The test on
  \<open>g_ascii_toupper(spec[0])\<close> holds exactly for the ASCII letters.
\<close>

definition value_pairs_parse_type :: "string \<Rightarrow> string \<times> string option" where
  "value_pairs_parse_type spec =
     (let sp1 = length (takeWhile (\<lambda>c. g_ascii_isalnum c \<or> c = CHR ''_'') spec);
          sp = sp1 + length (takeWhile (\<lambda>c. c = CHR '' '' \<or> c = CHR 0x09) (drop sp1 spec))
      in if c_at spec sp \<noteq> CHR ''('' \<or>
            \<not> (g_ascii_isalpha (c_at spec 0) \<or> c_at spec 0 = CHR ''_'')
         then (spec, None)
         else (case strchr (drop sp spec) (CHR '')'') of
                 None \<Rightarrow> (spec, None)
               | Some k \<Rightarrow>
                   if c_at spec (sp + k + 1) \<noteq> CHR 0x00 then (spec, None)
                   else (take (k - 1) (drop (sp + 1) spec), Some (take sp spec))))"

text \<open>
  The configuration hands out the template engine: compiling a template text and
  resolving the name of a type hint may fail. \<open>atoi\<close> is the one of the C library.
\<close>

record GlobalConfig =
  log_template_compile :: "string \<Rightarrow> bool"
  log_template_set_type_hint :: "string option \<Rightarrow> TypeHint option"
  atoi :: "string \<Rightarrow> int"

datatype vp_error =
  UnknownScope string
| PairMissingEquals
| ReplacePrefixMissingEquals
| TransformWithoutRekeyContext string
| TemplateCompileFailed
| TemplateTypeHintInvalid

text \<open>
  The array \<open>user_data_args\<close>: the object under construction, the open transformation
  set and the key of the rekey context.
\<close>

record vp_cmdline_args =
  args_vp :: ValuePairs
  args_vpts :: "ValuePairsTransformSet option"
  args_key :: "string option"

definition vp_cmdline_parse_rekey_finish :: "vp_cmdline_args \<Rightarrow> vp_cmdline_args" where
  "vp_cmdline_parse_rekey_finish args =
     \<lparr>args_vp = (case args_vpts args of
                   Some vpts \<Rightarrow> value_pairs_add_transforms (args_vp args) vpts
                 | None \<Rightarrow> args_vp args),
      args_vpts = None, args_key = None\<rparr>"

fun add_scopes :: "ValuePairs \<Rightarrow> string list \<Rightarrow> vp_error + ValuePairs" where
  "add_scopes vp [] = Inr vp"
| "add_scopes vp (sc # scs) =
     (case value_pairs_add_scope vp sc of
        None \<Rightarrow> Inl (UnknownScope sc)
      | Some vp' \<Rightarrow> add_scopes vp' scs)"

definition vp_cmdline_parse_scope :: "string \<Rightarrow> vp_cmdline_args \<Rightarrow> vp_error + vp_cmdline_args" where
  "vp_cmdline_parse_scope val args0 =
     (let args = vp_cmdline_parse_rekey_finish args0
      in case add_scopes (args_vp args) (g_strsplit val (CHR '','')) of
           Inl e \<Rightarrow> Inl e
         | Inr vp \<Rightarrow> Inr (args\<lparr>args_vp := vp\<rparr>))"

definition vp_cmdline_parse_exclude :: "string \<Rightarrow> vp_cmdline_args \<Rightarrow> vp_error + vp_cmdline_args" where
  "vp_cmdline_parse_exclude val args0 =
     (let args = vp_cmdline_parse_rekey_finish args0
      in Inr (args\<lparr>args_vp := fold (\<lambda>x vp. value_pairs_add_glob_pattern vp x False)
                                  (g_strsplit val (CHR '','')) (args_vp args)\<rparr>))"

definition vp_cmdline_start_key :: "vp_cmdline_args \<Rightarrow> string \<Rightarrow> vp_cmdline_args" where
  "vp_cmdline_start_key args key = (vp_cmdline_parse_rekey_finish args)\<lparr>args_key := Some key\<rparr>"

definition vp_cmdline_parse_key :: "string \<Rightarrow> vp_cmdline_args \<Rightarrow> vp_error + vp_cmdline_args" where
  "vp_cmdline_parse_key val args0 =
     (let args = vp_cmdline_start_key args0 val
      in Inr (args\<lparr>args_vp := fold (\<lambda>x vp. value_pairs_add_glob_pattern vp x True)
                                  (g_strsplit val (CHR '','')) (args_vp args)\<rparr>))"

definition vp_cmdline_parse_rekey :: "string \<Rightarrow> vp_cmdline_args \<Rightarrow> vp_error + vp_cmdline_args" where
  "vp_cmdline_parse_rekey val args = Inr (vp_cmdline_start_key args val)"

definition vp_cmdline_parse_pair ::
  "GlobalConfig \<Rightarrow> string \<Rightarrow> vp_cmdline_args \<Rightarrow> vp_error + vp_cmdline_args" where
  "vp_cmdline_parse_pair cfg val args0 =
     (let args = vp_cmdline_parse_rekey_finish args0
      in if strchr val (CHR ''='') = None then Inl PairMissingEquals
         else (case g_strsplit2 val (CHR ''='') of
                 (k, rest) \<Rightarrow>
                   (case value_pairs_parse_type rest of
                      (v, t) \<Rightarrow>
                        if \<not> log_template_compile cfg v then Inl TemplateCompileFailed
                        else (case log_template_set_type_hint cfg t of
                                None \<Rightarrow> Inl TemplateTypeHintInvalid
                              | Some hint \<Rightarrow>
                                  Inr (args\<lparr>args_vp := value_pairs_add_pair (args_vp args) k
                                         \<lparr>template_text = v, template_type_hint = hint\<rparr>\<rparr>)))))"

definition vp_cmdline_parse_pair_or_key ::
  "GlobalConfig \<Rightarrow> string \<Rightarrow> vp_cmdline_args \<Rightarrow> vp_error + vp_cmdline_args" where
  "vp_cmdline_parse_pair_or_key cfg val args =
     (if strchr val (CHR ''='') = None then vp_cmdline_parse_key val args
      else vp_cmdline_parse_pair cfg val args)"

text \<open>
  \<open>vp_cmdline_rekey_verify\<close> gives the open transformation set, opening one on the key
  of the rekey context when there is none yet; \<open>None\<close> when there is neither.
\<close>

definition vp_cmdline_rekey_verify ::
  "vp_cmdline_args \<Rightarrow> (ValuePairsTransformSet \<times> vp_cmdline_args) option" where
  "vp_cmdline_rekey_verify args =
     (case args_vpts args of
        Some vpts \<Rightarrow> Some (vpts, args)
      | None \<Rightarrow>
          (case args_key args of
             None \<Rightarrow> None
           | Some key \<Rightarrow>
               Some (value_pairs_transform_set_new key,
                     (vp_cmdline_parse_rekey_finish args)
                       \<lparr>args_vpts := Some (value_pairs_transform_set_new key)\<rparr>)))"

definition vp_cmdline_parse_rekey_replace_prefix ::
  "string \<Rightarrow> vp_cmdline_args \<Rightarrow> vp_error + vp_cmdline_args" where
  "vp_cmdline_parse_rekey_replace_prefix val args0 =
     (case vp_cmdline_rekey_verify args0 of
        None \<Rightarrow> Inl (TransformWithoutRekeyContext ''--replace-prefix'')
      | Some (vpts, args) \<Rightarrow>
          if strchr val (CHR ''='') = None then Inl ReplacePrefixMissingEquals
          else (case g_strsplit2 val (CHR ''='') of
                  (k, v) \<Rightarrow>
                    Inr (args\<lparr>args_vpts :=
                           Some (value_pairs_transform_set_add_func vpts (ReplacePrefix k v))\<rparr>)))"

definition vp_cmdline_parse_rekey_add_prefix ::
  "string \<Rightarrow> vp_cmdline_args \<Rightarrow> vp_error + vp_cmdline_args" where
  "vp_cmdline_parse_rekey_add_prefix val args0 =
     (case vp_cmdline_rekey_verify args0 of
        None \<Rightarrow> Inl (TransformWithoutRekeyContext ''--add-prefix'')
      | Some (vpts, args) \<Rightarrow>
          Inr (args\<lparr>args_vpts :=
                 Some (value_pairs_transform_set_add_func vpts (AddPrefix val))\<rparr>))"

text \<open>
  The amount of a shift is what \<open>atoi\<close> reads; the specification has it as an unsigned
  size, so a negative number counts as zero here.
\<close>

definition vp_cmdline_parse_rekey_shift ::
  "GlobalConfig \<Rightarrow> string \<Rightarrow> vp_cmdline_args \<Rightarrow> vp_error + vp_cmdline_args" where
  "vp_cmdline_parse_rekey_shift cfg val args0 =
     (case vp_cmdline_rekey_verify args0 of
        None \<Rightarrow> Inl (TransformWithoutRekeyContext ''--shift'')
      | Some (vpts, args) \<Rightarrow>
          Inr (args\<lparr>args_vpts :=
                 Some (value_pairs_transform_set_add_func vpts (Shift (nat (atoi cfg val))))\<rparr>))"

text \<open>
  The entries of \<open>vp_options\<close>. The option parser of GLib is modelled by what it does
  with the callbacks: the argument vector is the sequence of options with their values
  (a positional argument is \<open>OPT_REMAINING\<close>), each is handed to the callback of its
  entry in the order of the command line, and the first callback that fails ends the
  parse with its error.
\<close>

datatype vp_option =
  OPT_scope | OPT_exclude | OPT_key | OPT_rekey | OPT_pair | OPT_shift | OPT_add_prefix
| OPT_replace_prefix | OPT_replace | OPT_REMAINING

fun vp_options ::
  "GlobalConfig \<Rightarrow> vp_option \<Rightarrow> string \<Rightarrow> vp_cmdline_args \<Rightarrow> vp_error + vp_cmdline_args" where
  "vp_options cfg OPT_scope = vp_cmdline_parse_scope"
| "vp_options cfg OPT_exclude = vp_cmdline_parse_exclude"
| "vp_options cfg OPT_key = vp_cmdline_parse_key"
| "vp_options cfg OPT_rekey = vp_cmdline_parse_rekey"
| "vp_options cfg OPT_pair = vp_cmdline_parse_pair cfg"
| "vp_options cfg OPT_shift = vp_cmdline_parse_rekey_shift cfg"
| "vp_options cfg OPT_add_prefix = vp_cmdline_parse_rekey_add_prefix"
| "vp_options cfg OPT_replace_prefix = vp_cmdline_parse_rekey_replace_prefix"
| "vp_options cfg OPT_replace = vp_cmdline_parse_rekey_replace_prefix"
| "vp_options cfg OPT_REMAINING = vp_cmdline_parse_pair_or_key cfg"

fun g_option_context_parse ::
  "GlobalConfig \<Rightarrow> (vp_option \<times> string) list \<Rightarrow> vp_cmdline_args \<Rightarrow> vp_error + vp_cmdline_args" where
  "g_option_context_parse cfg [] args = Inr args"
| "g_option_context_parse cfg ((opt, val) # argv) args =
     (case vp_options cfg opt val args of
        Inl e \<Rightarrow> Inl e
      | Inr args' \<Rightarrow> g_option_context_parse cfg argv args')"

text \<open>
  On failure the object is released and \<open>NULL\<close> comes back with the error set: here the
  error alone.
\<close>

definition value_pairs_new_from_cmdline ::
  "GlobalConfig \<Rightarrow> (vp_option \<times> string) list \<Rightarrow> vp_error + ValuePairs" where
  "value_pairs_new_from_cmdline cfg argv =
     (case g_option_context_parse cfg argv
             \<lparr>args_vp = value_pairs_new, args_vpts = None, args_key = None\<rparr> of
        Inl e \<Rightarrow> Inl e
      | Inr args \<Rightarrow> Inr (args_vp (vp_cmdline_parse_rekey_finish args)))"


section \<open>Notions for the statements\<close>

text \<open>
  What the result tree needs of its comparison function: it is zero exactly on equal
  keys, swapping the arguments swaps the sign, and it is transitive.
\<close>

definition comparator :: "(string \<Rightarrow> string \<Rightarrow> int) \<Rightarrow> bool" where
  "comparator cmp =
     ((\<forall>a b. (cmp a b = 0) = (a = b)) \<and>
      (\<forall>a b. (cmp b a < 0) = (0 < cmp a b)) \<and>
      (\<forall>a b c. cmp a b < 0 \<longrightarrow> cmp b c < 0 \<longrightarrow> cmp a c < 0))"

definition sorted_nodes :: "(string \<Rightarrow> string \<Rightarrow> int) \<Rightarrow> (string \<times> 'v) list \<Rightarrow> bool" where
  "sorted_nodes cmp ns = sorted_wrt (\<lambda>a b. cmp (fst a) (fst b) < 0) ns"

definition tree_ok :: "'v GTree \<Rightarrow> bool" where
  "tree_ok t = (comparator (key_compare t) \<and> sorted_nodes (key_compare t) (nodes t))"

text \<open>A property of trees that every insertion of a non-empty value keeps.\<close>

definition kept_by_insert :: "(SBTHGString GTree \<Rightarrow> bool) \<Rightarrow> bool" where
  "kept_by_insert P = (\<forall>t k v. P t \<longrightarrow> sb_string v \<noteq> [] \<longrightarrow> P (g_tree_insert t k v))"

definition values_nonempty :: "SBTHGString GTree \<Rightarrow> bool" where
  "values_nonempty t = list_all (\<lambda>n. 0 < length (sb_string (snd n))) (nodes t)"

text \<open>What the template of an explicit pair renders to.\<close>

definition pair_rendering :: "'m collaborators \<Rightarrow> 'm vp_eval \<Rightarrow> VPPairConf \<Rightarrow> string" where
  "pair_rendering E ev vpc = log_template_append_format E (pair_template vpc) ev"

subsection \<open>Collaborators for the examples\<close>

text \<open>
  Modelled from the spec: the glob engine with its wildcards, \<open>*\<close> for any run of
  characters and \<open>?\<close> for one character (section 6 of the specification). It stands in
  for \<open>g_pattern_match_string\<close> in the examples only.
\<close>

fun glob_match :: "string \<Rightarrow> string \<Rightarrow> bool" where
  "glob_match [] [] = True"
| "glob_match [] (c # cs) = False"
| "glob_match (p # ps) [] = (p = CHR ''*'' \<and> glob_match ps [])"
| "glob_match (p # ps) (c # cs) =
     (if p = CHR ''*'' then glob_match ps (c # cs) \<or> glob_match (p # ps) cs
      else (p = CHR ''?'' \<or> p = c) \<and> glob_match ps cs)"

text \<open>
  In the examples a message is the list of its name-value pairs with their handles;
  handles from 100 on are SDATA handles; the macros \<open>HOST\<close> and \<open>PROGRAM\<close> read the
  values of the handles 1 and 2; a template renders to its own text.
\<close>

type_synonym example_msg = "(NVHandle \<times> string \<times> string) list"

definition example_get_value :: "example_msg \<Rightarrow> NVHandle \<Rightarrow> string" where
  "example_get_value msg h = (case map_of msg h of None \<Rightarrow> [] | Some (n, v) \<Rightarrow> v)"

definition example_E :: "example_msg collaborators" where
  "example_E =
     \<lparr>g_pattern_match_string = glob_match,
      nv_table_foreach = (\<lambda>msg. msg),
      log_msg_is_handle_sdata = (\<lambda>h. 100 \<le> h),
      log_msg_get_value = example_get_value,
      log_msg_get_value_handle = (\<lambda>n. 99),
      log_macro_lookup =
        (\<lambda>n. case map_of [(''HOST'', 1), (''PROGRAM'', 2)] n of None \<Rightarrow> 0 | Some i \<Rightarrow> i),
      log_macro_expand = (\<lambda>i ev. example_get_value (ev_msg ev) i),
      log_template_append_format = (\<lambda>t ev. template_text t),
      macros = [(''HOST'', 1), (''PROGRAM'', 2)],
      scratch_type_hint = TYPE_HINT_STRING\<rparr>"

definition example_ev :: "example_msg \<Rightarrow> example_msg vp_eval" where
  "example_ev msg =
     \<lparr>ev_msg = msg, ev_seq_num = 0, ev_time_zone_mode = 0, ev_template_options = 0\<rparr>"

definition example_pair :: "string \<Rightarrow> string \<Rightarrow> VPPairConf" where
  "example_pair n v =
     \<lparr>pair_name = n,
      pair_template = \<lparr>template_text = v, template_type_hint = TYPE_HINT_LITERAL\<rparr>\<rparr>"

lemmas example_defs =
  example_E_def sb_th_gstring_acquire_def g_string_append_len_def example_ev_def example_pair_def example_get_value_def value_pairs_new_def
  VPS_NV_PAIRS_def VPS_DOT_NV_PAIRS_def VPS_RFC3164_def VPS_RFC5424_def VPS_ALL_MACROS_def
  VPS_SELECTED_MACROS_def VPS_SDATA_def VPS_EVERYTHING_def

lemmas scope_set_defs =
  value_pairs_scope_set_def base_set_nvpairs_def base_set_macros_def base_set_rfc3164_def
  base_set_rfc5424_def base_set_selected_macros_def base_set_all_macros_def base_set_pairs_def
  vp_merge_set_def vp_merge_macros_def vp_find_in_set_def vp_pairs_foreach_def
  vp_msg_nvpairs_foreach_def vp_msg_nvpairs_inc_def vp_spec_render_def vp_transform_apply_def
  vp_pattern_spec_eval_def patterns_size_def value_pairs_init_set_def value_pairs_init_entry_def
  value_pair_spec_def rfc3164_def rfc5424_def selected_macros_def all_macros_def
  g_tree_new_full_def g_tree_insert_def c_at_def

subsection \<open>Notions for the command line\<close>

text \<open>
  The rekey context in the words of the specification: \<open>--key\<close>, \<open>--rekey\<close> and a
  positional argument without an equal sign open it, the transformation options leave it
  as it is, every other option closes it. \<open>rekey_context_open b argv\<close> tells whether
  it is open after \<open>argv\<close> when it was \<open>b\<close> before. \<open>cmdline_accepted\<close> tells
  of an argument vector whether every option in it is accepted where it stands.
\<close>

definition is_transform_option :: "vp_option \<Rightarrow> bool" where
  "is_transform_option opt =
     (opt = OPT_shift \<or> opt = OPT_add_prefix \<or> opt = OPT_replace_prefix \<or> opt = OPT_replace)"

definition opens_rekey_context :: "vp_option \<Rightarrow> string \<Rightarrow> bool" where
  "opens_rekey_context opt val =
     (opt = OPT_key \<or> opt = OPT_rekey \<or> (opt = OPT_REMAINING \<and> CHR ''='' \<notin> set val))"

fun rekey_context_open :: "bool \<Rightarrow> (vp_option \<times> string) list \<Rightarrow> bool" where
  "rekey_context_open b [] = b"
| "rekey_context_open b ((opt, val) # argv) =
     rekey_context_open (if is_transform_option opt then b else opens_rekey_context opt val) argv"

definition known_scope :: "string \<Rightarrow> bool" where
  "known_scope sc = (sc \<in> fst ` set value_pair_scope)"

definition pair_accepted :: "GlobalConfig \<Rightarrow> string \<Rightarrow> bool" where
  "pair_accepted cfg val =
     (CHR ''='' \<in> set val \<and>
      log_template_compile cfg (fst (value_pairs_parse_type (snd (g_strsplit2 val (CHR ''=''))))) \<and>
      log_template_set_type_hint cfg
        (snd (value_pairs_parse_type (snd (g_strsplit2 val (CHR ''=''))))) \<noteq> None)"

fun option_accepted :: "GlobalConfig \<Rightarrow> bool \<Rightarrow> vp_option \<Rightarrow> string \<Rightarrow> bool" where
  "option_accepted cfg b OPT_scope val = list_all known_scope (g_strsplit val (CHR '',''))"
| "option_accepted cfg b OPT_exclude val = True"
| "option_accepted cfg b OPT_key val = True"
| "option_accepted cfg b OPT_rekey val = True"
| "option_accepted cfg b OPT_pair val = pair_accepted cfg val"
| "option_accepted cfg b OPT_shift val = b"
| "option_accepted cfg b OPT_add_prefix val = b"
| "option_accepted cfg b OPT_replace_prefix val = (b \<and> CHR ''='' \<in> set val)"
| "option_accepted cfg b OPT_replace val = (b \<and> CHR ''='' \<in> set val)"
| "option_accepted cfg b OPT_REMAINING val = (CHR ''='' \<in> set val \<longrightarrow> pair_accepted cfg val)"

fun cmdline_accepted :: "GlobalConfig \<Rightarrow> bool \<Rightarrow> (vp_option \<times> string) list \<Rightarrow> bool" where
  "cmdline_accepted cfg b [] = True"
| "cmdline_accepted cfg b ((opt, val) # argv) =
     (option_accepted cfg b opt val \<and>
      cmdline_accepted cfg (if is_transform_option opt then b else opens_rekey_context opt val) argv)"

definition ctx_open :: "vp_cmdline_args \<Rightarrow> bool" where
  "ctx_open args = (args_vpts args \<noteq> None \<or> args_key args \<noteq> None)"

definition example_cfg :: GlobalConfig where
  "example_cfg =
     \<lparr>log_template_compile = (\<lambda>v. True),
      log_template_set_type_hint =
        (\<lambda>t. case t of None \<Rightarrow> Some TYPE_HINT_STRING
              | Some n \<Rightarrow> if n = ''int'' then Some TYPE_HINT_INT32 else None),
      atoi = (\<lambda>v. foldl (\<lambda>n c. 10 * n + (int (of_char c) - 48)) 0 (takeWhile isdigit v))\<rparr>"

subsection \<open>Notions for the walker\<close>

text \<open>
  The callbacks that a walk makes are recorded as events: an \<open>obj_start\<close> and an
  \<open>obj_end\<close> with key, prefix and prefix of the parent (\<open>None\<close> for \<open>NULL\<close>), a
  \<open>process_value\<close> with key, prefix of the parent, type hint, value and the flag that the
  callback has returned (true signals a failure).
\<close>

datatype vp_event =
  ObjStart "string option" "string option" "string option"
| ObjEnd "string option" "string option" "string option"
| ProcessValue string "string option" TypeHint string bool

text \<open>
  A recording consumer: any consumer callback, wrapped so that the consumer's data also
  carries the list of the calls made so far, in their order. The wrapped callback
  behaves as the callback itself and appends the call.
\<close>

definition log_obj_start ::
  "('d, 'u) VPWalkCallbackFunc \<Rightarrow> ('d, 'u \<times> vp_event list) VPWalkCallbackFunc" where
  "log_obj_start cb name prefix d pprefix pd ul =
     (case ul of (u, l) \<Rightarrow>
        (case cb name prefix d pprefix pd u of
           (r, d', pd', u') \<Rightarrow> (r, d', pd', (u', l @ [ObjStart name prefix pprefix]))))"

definition log_obj_end ::
  "('d, 'u) VPWalkCallbackFunc \<Rightarrow> ('d, 'u \<times> vp_event list) VPWalkCallbackFunc" where
  "log_obj_end cb name prefix d pprefix pd ul =
     (case ul of (u, l) \<Rightarrow>
        (case cb name prefix d pprefix pd u of
           (r, d', pd', u') \<Rightarrow> (r, d', pd', (u', l @ [ObjEnd name prefix pprefix]))))"

definition log_process_value ::
  "('d, 'u) VPWalkValueCallbackFunc \<Rightarrow> ('d, 'u \<times> vp_event list) VPWalkValueCallbackFunc" where
  "log_process_value cb name pprefix type val pd ul =
     (case ul of (u, l) \<Rightarrow>
        (case cb name pprefix type val pd u of
           (r, d', u') \<Rightarrow> (r, d', (u', l @ [ProcessValue name pprefix type val r]))))"

text \<open>
  The same for the callback of the flat traversal: a call is recorded with name, type
  hint, value and the flag that the callback has returned.
\<close>

definition log_foreach ::
  "'u VPForeachFunc \<Rightarrow> ('u \<times> (string \<times> TypeHint \<times> string \<times> bool) list) VPForeachFunc" where
  "log_foreach func name type val ul =
     (case ul of (u, l) \<Rightarrow>
        (case func name type val u of
           (failed, u') \<Rightarrow> (failed, (u', l @ [(name, type, val, failed)]))))"

text \<open>
  What the walker reads of a frame: key, prefix and \<open>prefix_len\<close>. \<open>id_matches\<close>
  is the test of the unwinding on it. \<open>close_events\<close> are the \<open>obj_end\<close> events of
  frames popped in this order, above the frames \<open>rest\<close>; \<open>open_events\<close> are the
  \<open>obj_start\<close> events of frames pushed in this order, above a frame with the given
  prefix; \<open>new_frames\<close> are the frames that the walker pushes for the tokens from
  position \<open>i\<close> to the last but one.
\<close>

type_synonym frame_id = "string \<times> string \<times> nat"

definition frame_id :: "'d vp_walk_stack_data_t \<Rightarrow> frame_id" where
  "frame_id t = (wk_key t, wk_prefix t, wk_prefix_len t)"

fun id_matches :: "string option \<Rightarrow> frame_id \<Rightarrow> bool" where
  "id_matches None f = False"
| "id_matches (Some n) (k, p, len) = (strncmp n p len = 0)"

fun parent_prefix :: "frame_id list \<Rightarrow> string option" where
  "parent_prefix [] = None"
| "parent_prefix ((k, p, n) # fs) = Some p"

fun close_events :: "frame_id list \<Rightarrow> frame_id list \<Rightarrow> vp_event list" where
  "close_events [] rest = []"
| "close_events ((k, p, n) # fs) rest =
     ObjEnd (Some k) (Some p) (parent_prefix (fs @ rest)) # close_events fs rest"

fun open_events :: "frame_id list \<Rightarrow> string option \<Rightarrow> vp_event list" where
  "open_events [] pp = []"
| "open_events ((k, p, n) # fs) pp = ObjStart (Some k) (Some p) pp # open_events fs (Some p)"

definition new_frames :: "string list \<Rightarrow> nat \<Rightarrow> frame_id list" where
  "new_frames tokens i =
     map (\<lambda>j. (tokens ! j, vp_walker_name_combine_prefix tokens j,
                length (vp_walker_name_combine_prefix tokens j)))
       [i..<length tokens - 1]"

text \<open>
  The check of the nesting: the events are run against a stack of open containers, each
  with its key and prefix. An \<open>obj_start\<close> must name the prefix of the innermost open
  container as its parent and opens a container; an \<open>obj_end\<close> must name the key and
  the prefix of the innermost open container and, as its parent, the prefix of the
  container around it, and closes it; a value must name the prefix of the innermost open
  container as its parent. \<open>check_events\<close> gives the containers left open, or
  \<open>None\<close> when an event breaks the nesting.
\<close>

fun top_prefix :: "(string option \<times> string option) list \<Rightarrow> string option" where
  "top_prefix [] = None"
| "top_prefix ((k, p) # st) = p"

fun check_step ::
  "(string option \<times> string option) list option \<Rightarrow> vp_event \<Rightarrow>
     (string option \<times> string option) list option" where
  "check_step None e = None"
| "check_step (Some st) (ObjStart k p pp) =
     (if pp = top_prefix st then Some ((k, p) # st) else None)"
| "check_step (Some st) (ObjEnd k p pp) =
     (case st of
        [] \<Rightarrow> None
      | (k', p') # st' \<Rightarrow> if k = k' \<and> p = p' \<and> pp = top_prefix st' then Some st' else None)"
| "check_step (Some st) (ProcessValue k pp t v f) =
     (if pp = top_prefix st then Some st else None)"

definition check_events :: "vp_event list \<Rightarrow> (string option \<times> string option) list option" where
  "check_events es = foldl check_step (Some []) es"

text \<open>The \<open>obj_start\<close> events and the \<open>obj_end\<close> events of a sequence, as multisets.\<close>

fun obj_starts :: "vp_event list \<Rightarrow> (string option \<times> string option \<times> string option) multiset" where
  "obj_starts [] = {#}"
| "obj_starts (ObjStart k p pp # es) = add_mset (k, p, pp) (obj_starts es)"
| "obj_starts (e # es) = obj_starts es"

fun obj_ends :: "vp_event list \<Rightarrow> (string option \<times> string option \<times> string option) multiset" where
  "obj_ends [] = {#}"
| "obj_ends (ObjEnd k p pp # es) = add_mset (k, p, pp) (obj_ends es)"
| "obj_ends (e # es) = obj_ends es"

fun is_obj_end :: "vp_event \<Rightarrow> bool" where
  "is_obj_end (ObjEnd k p pp) = True"
| "is_obj_end e = False"

fun is_failure :: "vp_event \<Rightarrow> bool" where
  "is_failure (ProcessValue k pp t v f) = f"
| "is_failure e = False"

text \<open>
  A callback is handed a node of the result tree: the type hint is the one of the node,
  the value is the string of the node as a \<open>char *\<close> reads it, and this value is empty
  exactly if the string of the node begins with a NUL byte. \<open>event_delivers\<close> says of
  a \<open>process_value\<close> event that it hands on some node of a tree.
\<close>

definition node_delivered :: "string \<times> SBTHGString \<Rightarrow> TypeHint \<Rightarrow> string \<Rightarrow> bool" where
  "node_delivered n type val =
     (type = sb_type_hint (snd n) \<and> val = c_str (sb_string (snd n)) \<and>
      (val = []) = (take 1 (sb_string (snd n)) = [CHR 0x00]))"

fun event_delivers :: "SBTHGString GTree \<Rightarrow> vp_event \<Rightarrow> bool" where
  "event_delivers t (ProcessValue k pp type val f) =
     list_ex (\<lambda>n. node_delivered n type val) (nodes t)"
| "event_delivers t e = True"

text \<open>
  A state of the walker whose callbacks are recording consumers, its record of the calls
  and the shape of its stack; and, for one call of \<open>value_pairs_walker\<close> on a key over
  a stack of a given shape: the frames kept, the shape of the stack afterwards, the
  container events emitted before the value, and the key of the value.
\<close>

definition logging ::
  "('d, 'u) VPWalkCallbackFunc \<Rightarrow> ('d, 'u) VPWalkValueCallbackFunc \<Rightarrow>
     ('d, 'u) VPWalkCallbackFunc \<Rightarrow> ('d, 'u \<times> vp_event list) vp_walk_state_t \<Rightarrow> bool" where
  "logging cs cv ce state =
     (obj_start state = log_obj_start cs \<and> obj_end state = log_obj_end ce \<and>
      process_value state = log_process_value cv)"

definition wlog :: "('d, 'u \<times> vp_event list) vp_walk_state_t \<Rightarrow> vp_event list" where
  "wlog state = snd (user_data state)"

definition wshape :: "('d, 'u) vp_walk_state_t \<Rightarrow> frame_id list" where
  "wshape state = map frame_id (stack state)"

definition walker_kept :: "string \<Rightarrow> frame_id list \<Rightarrow> frame_id list" where
  "walker_kept name sh = dropWhile (\<lambda>f. \<not> id_matches (Some name) f) sh"

definition walker_shape :: "string \<Rightarrow> frame_id list \<Rightarrow> frame_id list" where
  "walker_shape name sh =
     rev (new_frames (split_loop name 0 []) (length (walker_kept name sh))) @ walker_kept name sh"

definition walker_events :: "string \<Rightarrow> frame_id list \<Rightarrow> vp_event list" where
  "walker_events name sh =
     close_events (takeWhile (\<lambda>f. \<not> id_matches (Some name) f) sh) (walker_kept name sh) @
     open_events (new_frames (split_loop name 0 []) (length (walker_kept name sh)))
       (parent_prefix (walker_kept name sh))"

definition walker_key :: "string \<Rightarrow> string" where
  "walker_key name = split_loop name 0 [] ! (length (split_loop name 0 []) - 1)"

definition cstack :: "frame_id list \<Rightarrow> (string option \<times> string option) list" where
  "cstack fs = map (\<lambda>f. (Some (fst f), Some (fst (snd f)))) fs"

text \<open>
  The calls that \<open>value_pairs_walk\<close> makes to the consumer callbacks \<open>cs\<close>,
  \<open>cv\<close> and \<open>ce\<close>, in their order, and the result that it returns.
\<close>

definition walk_trace ::
  "'m collaborators \<Rightarrow> ValuePairs \<Rightarrow> ('d, 'u) VPWalkCallbackFunc \<Rightarrow>
     ('d, 'u) VPWalkValueCallbackFunc \<Rightarrow> ('d, 'u) VPWalkCallbackFunc \<Rightarrow> 'm vp_eval \<Rightarrow> 'u \<Rightarrow>
     vp_event list" where
  "walk_trace E vp cs cv ce ev u =
     snd (snd (value_pairs_walk E vp (log_obj_start cs) (log_process_value cv) (log_obj_end ce)
                 ev (u, [])))"

definition walk_result ::
  "'m collaborators \<Rightarrow> ValuePairs \<Rightarrow> ('d, 'u) VPWalkCallbackFunc \<Rightarrow>
     ('d, 'u) VPWalkValueCallbackFunc \<Rightarrow> ('d, 'u) VPWalkCallbackFunc \<Rightarrow> 'm vp_eval \<Rightarrow> 'u \<Rightarrow>
     bool" where
  "walk_result E vp cs cv ce ev u =
     fst (value_pairs_walk E vp (log_obj_start cs) (log_process_value cv) (log_obj_end ce)
            ev (u, []))"

definition walk_inv ::
  "('d, 'u) VPWalkCallbackFunc \<Rightarrow> ('d, 'u) VPWalkValueCallbackFunc \<Rightarrow>
     ('d, 'u) VPWalkCallbackFunc \<Rightarrow> (vp_event list \<Rightarrow> frame_id list \<Rightarrow> bool \<Rightarrow> bool) \<Rightarrow>
     ('d, 'u \<times> vp_event list) vp_walk_state_t \<times> bool \<Rightarrow> bool" where
  "walk_inv cs cv ce P s = (logging cs cv ce (fst s) \<and> P (wlog (fst s)) (wshape (fst s)) (snd s))"

fun open_frames ::
  "(string option \<times> string option) list \<Rightarrow>
     (string option \<times> string option \<times> string option) multiset" where
  "open_frames [] = {#}"
| "open_frames ((k, p) # st) = add_mset (k, p, top_prefix st) (open_frames st)"

subsection \<open>Notions for the traversals\<close>

text \<open>
  The calls that \<open>value_pairs_foreach_sorted\<close> makes to the consumer callback
  \<open>func\<close>, in their order, and the result that it returns.
\<close>

definition foreach_calls ::
  "'m collaborators \<Rightarrow> ValuePairs \<Rightarrow> 'u VPForeachFunc \<Rightarrow> (string \<Rightarrow> string \<Rightarrow> int) \<Rightarrow>
     'm vp_eval \<Rightarrow> 'u \<Rightarrow> (string \<times> TypeHint \<times> string \<times> bool) list" where
  "foreach_calls E vp func compare_func ev u =
     snd (snd (value_pairs_foreach_sorted E vp (log_foreach func) compare_func ev (u, [])))"

definition foreach_result ::
  "'m collaborators \<Rightarrow> ValuePairs \<Rightarrow> 'u VPForeachFunc \<Rightarrow> (string \<Rightarrow> string \<Rightarrow> int) \<Rightarrow>
     'm vp_eval \<Rightarrow> 'u \<Rightarrow> bool" where
  "foreach_result E vp func compare_func ev u =
     fst (value_pairs_foreach_sorted E vp (log_foreach func) compare_func ev (u, []))"

definition call_failed :: "string \<times> TypeHint \<times> string \<times> bool \<Rightarrow> bool" where
  "call_failed c = snd (snd (snd c))"

definition call_value :: "string \<times> TypeHint \<times> string \<times> bool \<Rightarrow> string" where
  "call_value c = fst (snd (snd c))"

text \<open>
  A call of the flat traversal hands on some node of a tree: the name is the key of the
  node, type hint and value are those of the node.
\<close>

definition call_delivers ::
  "SBTHGString GTree \<Rightarrow> string \<times> TypeHint \<times> string \<times> bool \<Rightarrow> bool" where
  "call_delivers t c =
     list_ex (\<lambda>n. fst c = fst n \<and> node_delivered n (fst (snd c)) (call_value c)) (nodes t)"

text \<open>
  Consumers for the examples: container callbacks that do nothing, and value callbacks
  that fail at the key \<open>bad\<close>.
\<close>

definition example_obj_cb :: "(unit, unit) VPWalkCallbackFunc" where
  "example_obj_cb name prefix d pprefix pd u = (False, None, None, u)"

definition example_value_cb :: "string \<Rightarrow> (unit, unit) VPWalkValueCallbackFunc" where
  "example_value_cb bad name pprefix type val pd u = (name = bad, None, u)"

definition example_foreach_cb :: "string \<Rightarrow> unit VPForeachFunc" where
  "example_foreach_cb bad name type val u = (name = bad, u)"

definition example_walk_state :: "(unit, unit \<times> vp_event list) vp_walk_state_t" where
  "example_walk_state =
     \<lparr>obj_start = log_obj_start example_obj_cb, obj_end = log_obj_end example_obj_cb,
      process_value = log_process_value (example_value_cb ''''),
      user_data = ((), []), stack = []\<rparr>"

definition example_nv_walk :: "string \<Rightarrow> example_msg \<Rightarrow> vp_event list" where
  "example_nv_walk bad msg =
     walk_trace example_E (value_pairs_new\<lparr>scopes := VPS_NV_PAIRS\<rparr>)
       example_obj_cb (example_value_cb bad) example_obj_cb (example_ev msg) ()"

text \<open>
  A state of the walker with recording consumers records a state with the consumers
  themselves: same stack, same data of the consumer, and the callbacks wrapped.
\<close>

definition records ::
  "('d, 'u \<times> vp_event list) vp_walk_state_t \<Rightarrow> ('d, 'u) vp_walk_state_t \<Rightarrow> bool" where
  "records sl s =
     (stack sl = stack s \<and> fst (user_data sl) = user_data s \<and>
      obj_start sl = log_obj_start (obj_start s) \<and> obj_end sl = log_obj_end (obj_end s) \<and>
      process_value sl = log_process_value (process_value s))"

section \<open>Properties of the tokenizer\<close>

lemma strspn_run:
  assumes j: "j < strspn (drop p name) accept"
  shows "c_at name (p + j) \<in> set accept"
proof -
  let ?s = "drop p name"
  have len: "j < length ?s"
    using j length_takeWhile_le [of "\<lambda>c. c \<in> set accept" ?s] by (simp add: strspn_def)
  have "takeWhile (\<lambda>c. c \<in> set accept) ?s ! j = ?s ! j"
    using j by (simp add: strspn_def takeWhile_nth)
  moreover have "takeWhile (\<lambda>c. c \<in> set accept) ?s ! j \<in> set (takeWhile (\<lambda>c. c \<in> set accept) ?s)"
    using j by (simp add: strspn_def)
  ultimately have "?s ! j \<in> set accept"
    by (auto dest: set_takeWhileD)
  moreover from len have "p + j < length name" by simp
  ultimately show ?thesis by (simp add: c_at_def)
qed

lemma strspn_stop:
  assumes z: "CHR 0x00 \<notin> set accept"
  shows "c_at name (p + strspn (drop p name) accept) \<notin> set accept"
proof -
  let ?s = "drop p name"
  let ?n = "strspn ?s accept"
  show ?thesis
  proof (cases "?n < length ?s")
    case True
    then have "\<not> (?s ! ?n \<in> set accept)"
      unfolding strspn_def by (rule nth_length_takeWhile)
    moreover from True have "p + ?n < length name" by simp
    ultimately show ?thesis by (simp add: c_at_def)
  next
    case False
    with length_takeWhile_le [of "\<lambda>c. c \<in> set accept" ?s]
    have "length name \<le> p + ?n" by (simp add: strspn_def)
    with z show ?thesis by (simp add: c_at_def)
  qed
qed

lemma skip_sdata_enterprise_id_grammar:
  "pos < vp_walker_skip_sdata_enterprise_id name pos \<and>
   \<not> isdigit (c_at name (vp_walker_skip_sdata_enterprise_id name pos)) \<and>
   \<not> (c_at name (vp_walker_skip_sdata_enterprise_id name pos) = CHR ''.'' \<and>
      isdigit (c_at name (vp_walker_skip_sdata_enterprise_id name pos + 1))) \<and>
   (\<forall>i. pos < i \<and> i < vp_walker_skip_sdata_enterprise_id name pos \<longrightarrow>
      isdigit (c_at name i) \<or> (c_at name i = CHR ''.'' \<and> isdigit (c_at name (i + 1))))"
proof (induction name pos rule: vp_walker_skip_sdata_enterprise_id.induct)
  case (1 name pos)
  let ?p2 = "pos + 1 + strspn (drop (pos + 1) name) ''0123456789''"
  have run: "\<And>i. pos < i \<Longrightarrow> i < ?p2 \<Longrightarrow> isdigit (c_at name i)"
  proof -
    fix i assume "pos < i" "i < ?p2"
    then have "i - (pos + 1) < strspn (drop (pos + 1) name) ''0123456789''" by simp
    from strspn_run [OF this] \<open>pos < i\<close> show "isdigit (c_at name i)"
      by (simp add: isdigit_def)
  qed
  have stop: "\<not> isdigit (c_at name ?p2)"
    using strspn_stop [of "''0123456789''" name "pos + 1"] by (simp add: isdigit_def)
  show ?case
  proof (cases "c_at name ?p2 = CHR ''.'' \<and> isdigit (c_at name (?p2 + 1))")
    case True
    then have eq: "vp_walker_skip_sdata_enterprise_id name pos =
                   vp_walker_skip_sdata_enterprise_id name ?p2"
      by (subst vp_walker_skip_sdata_enterprise_id.simps) simp
    note ih = "1.IH" [OF True]
    have inner: "isdigit (c_at name i) \<or> (c_at name i = CHR ''.'' \<and> isdigit (c_at name (i + 1)))"
      if "pos < i" "i < vp_walker_skip_sdata_enterprise_id name ?p2" for i
    proof -
      consider "i < ?p2" | "i = ?p2" | "?p2 < i" by linarith
      then show ?thesis
      proof cases
        case 1 with run that show ?thesis by simp
      next
        case 2 with True show ?thesis by simp
      next
        case 3 with ih that show ?thesis by blast
      qed
    qed
    have "pos < vp_walker_skip_sdata_enterprise_id name ?p2"
      using ih by linarith
    with ih inner show ?thesis
      unfolding eq by blast
  next
    case False
    then have eq: "vp_walker_skip_sdata_enterprise_id name pos = ?p2"
      by (subst vp_walker_skip_sdata_enterprise_id.simps) auto
    show ?thesis
      unfolding eq using run stop False by auto
  qed
qed

lemma tokens_foo_1_2_3_bar:
  "vp_walker_split_name_to_tokens ''foo@1.2.3.bar'' = Some [''foo@1.2.3'', ''bar'']"
  by code_simp

lemma tokens_foo_1_bar:
  "vp_walker_split_name_to_tokens ''foo@1.bar'' = Some [''foo@1'', ''bar'']"
  by code_simp

lemma tokens_foo_bar:
  "vp_walker_split_name_to_tokens ''foo.bar'' = Some [''foo'', ''bar'']"
  by code_simp

lemma tokens_a_b_c:
  "vp_walker_split_name_to_tokens ''a.b.c'' = Some [''a'', ''b'', ''c'']"
  by code_simp

lemma skip_foo_1_2_3_bar:
  "vp_walker_skip_sdata_enterprise_id ''foo@1.2.3.bar'' 3 = 9"
  by code_simp

text \<open>
  C7. The tokenizer of the walker does not follow the enterprise-id grammar on every name.
  On the four names of the claim it gives the tokens that the claim lists (lemmas
  \<open>tokens_foo_1_2_3_bar\<close>, \<open>tokens_foo_1_bar\<close>, \<open>tokens_foo_bar\<close> and
  \<open>tokens_a_b_c\<close>), and the skip from an \<open>@\<close> on steps over digits and over dots
  followed by a digit only (lemma \<open>skip_sdata_enterprise_id_grammar\<close>). But when the skip
  ends at a character that is neither a dot nor the end of the name, the loop of
  \<open>vp_walker_split_name_to_tokens\<close> goes round again without a token added, and the
  new round sets \<open>token_start\<close> to the position reached: the bytes scanned before it
  are in no token. For \<open>foo@1bar.x\<close> the skip that starts at the \<open>@\<close> ends at the
  \<open>b\<close>, and the tokens are \<open>bar\<close> and \<open>x\<close>, where splitting at dots gives
  \<open>foo@1bar\<close> and \<open>x\<close>; for \<open>user@example.com\<close> the tokens are \<open>example\<close>
  and \<open>com\<close>. A walk over a message with the key \<open>foo@1bar.x\<close> opens the container
  \<open>bar\<close> with the prefix \<open>bar\<close>.
\<close>

theorem tokenizer_loses_bytes_before_token_start:
  "vp_walker_skip_sdata_enterprise_id ''foo@1bar.x'' 3 = 5 \<and>
   vp_walker_split_name_to_tokens ''foo@1bar.x'' = Some [''bar'', ''x''] \<and>
   vp_walker_split_name_to_tokens ''user@example.com'' = Some [''example'', ''com''] \<and>
   example_nv_walk '''' [(5, ''foo@1bar.x'', ''1'')] =
     [ObjStart None None None,
      ObjStart (Some ''bar'') (Some ''bar'') None,
      ProcessValue ''x'' (Some ''bar'') TYPE_HINT_STRING ''1'' False,
      ObjEnd (Some ''bar'') (Some ''bar'') None,
      ObjEnd None None None]"
  by (intro conjI; code_simp)

section \<open>Properties of the selection\<close>

lemma vp_patterns_loop_snoc:
  "vp_patterns_loop E (ps @ [p]) name inc =
     (if vp_pattern_spec_eval E p name then incl p else vp_patterns_loop E ps name inc)"
  by (induction ps arbitrary: inc) simp_all

lemma vp_patterns_loop_last_match:
  "vp_patterns_loop E ps name seed =
     (if filter (\<lambda>p. vp_pattern_spec_eval E p name) ps = [] then seed
      else incl (last (filter (\<lambda>p. vp_pattern_spec_eval E p name) ps)))"
proof (induction ps rule: rev_induct)
  case Nil
  show ?case by simp
next
  case (snoc p ps)
  show ?case
    by (simp add: vp_patterns_loop_snoc snoc.IH)
qed

text \<open>
  C3. The evaluation of the list of glob patterns is last-match-wins. For every name and
  every list of patterns, the inclusion computed from a seed bit is the include flag of
  the last pattern of the list that matches the name, and the seed when no pattern
  matches. This holds for the loop as \<open>vp_find_in_set\<close> runs it and as
  \<open>vp_msg_nvpairs_foreach\<close> runs it on the name-value pairs of the message.
\<close>

theorem glob_list_last_match_wins:
  "vp_find_in_set E vp n seed =
     (if filter (\<lambda>p. vp_pattern_spec_eval E p n) (patterns vp) = [] then seed
      else incl (last (filter (\<lambda>p. vp_pattern_spec_eval E p n) (patterns vp)))) \<and>
   vp_msg_nvpairs_foreach E vp (handle, n, v # vs) scope_set =
     (if (if filter (\<lambda>p. vp_pattern_spec_eval E p n) (patterns vp) = []
          then vp_msg_nvpairs_inc E vp handle n
          else incl (last (filter (\<lambda>p. vp_pattern_spec_eval E p n) (patterns vp))))
      then g_tree_insert scope_set (vp_transform_apply vp n)
             ((sb_th_gstring_acquire E)\<lparr>sb_string := v # vs, sb_type_hint := TYPE_HINT_STRING\<rparr>)
      else scope_set)"
  by (simp add: vp_find_in_set_def vp_msg_nvpairs_foreach_def
        vp_patterns_loop_last_match [of E "patterns vp" n])




section \<open>Properties of the result tree\<close>

lemma strcmp_eq_0_iff: "(strcmp a b = 0) = (a = b)"
  by (induction a b rule: strcmp.induct) auto

lemma strcmp_swap: "strcmp b a = - strcmp a b"
  by (induction a b rule: strcmp.induct) (auto simp: of_char_eq_iff dest: less_imp_neq)

lemma strcmp_range: "strcmp a b = - 1 \<or> strcmp a b = 0 \<or> strcmp a b = 1"
  by (induction a b rule: strcmp.induct) auto

lemma strcmp_less_trans:
  "strcmp a b < 0 \<Longrightarrow> strcmp b c < 0 \<Longrightarrow> strcmp a c < 0"
proof (induction a b arbitrary: c rule: strcmp.induct)
  case 1
  then show ?case by simp
next
  case (2 y ys)
  then show ?case by (cases c) (auto split: if_splits)
next
  case (3 x xs)
  then show ?case by simp
next
  case (4 x xs y ys)
  then show ?case
    by (cases c) (auto split: if_splits)
qed

lemma comparator_strcmp: "comparator strcmp"
  unfolding comparator_def
  using strcmp_eq_0_iff strcmp_less_trans
  by (metis neg_less_0_iff_less strcmp_swap)

lemma comparator_vp_walk_cmp: "comparator vp_walk_cmp"
  unfolding comparator_def vp_walk_cmp_def
  using strcmp_eq_0_iff strcmp_less_trans
  by (metis neg_less_0_iff_less strcmp_swap)

lemma in_g_tree_insert_node:
  "comparator cmp \<Longrightarrow> x \<in> set (g_tree_insert_node cmp k v ns) \<Longrightarrow> x = (k, v) \<or> x \<in> set ns"
  by (induction ns) (auto simp: comparator_def split: if_splits)

lemma sorted_g_tree_insert_node:
  assumes c: "comparator cmp"
  shows "sorted_nodes cmp ns \<Longrightarrow> sorted_nodes cmp (g_tree_insert_node cmp k v ns)"
proof (induction ns)
  case Nil
  then show ?case by (simp add: sorted_nodes_def)
next
  case (Cons a ns)
  obtain k' v' where a: "a = (k', v')" by (cases a)
  from Cons.prems have hd: "\<forall>x\<in>set ns. cmp k' (fst x) < 0" and tl: "sorted_nodes cmp ns"
    by (simp_all add: a sorted_nodes_def)
  show ?case
  proof (cases "cmp k k' = 0")
    case True
    with hd tl show ?thesis by (simp add: a sorted_nodes_def)
  next
    case False
    show ?thesis
    proof (cases "cmp k k' < 0")
      case True
      have "\<forall>x\<in>set ns. cmp k (fst x) < 0"
        using hd True c unfolding comparator_def by blast
      with True False hd tl show ?thesis
        by (simp add: a sorted_nodes_def)
    next
      case gt: False
      from c have "0 < cmp k k' \<Longrightarrow> cmp k' k < 0"
        unfolding comparator_def by blast
      with gt False have lt: "cmp k' k < 0" by linarith
      have "\<forall>x\<in>set (g_tree_insert_node cmp k v ns). cmp k' (fst x) < 0"
        using in_g_tree_insert_node [OF c] hd lt by fastforce
      with gt False Cons.IH [OF tl] show ?thesis
        by (simp add: a sorted_nodes_def)
    qed
  qed
qed

lemma map_of_g_tree_insert_node:
  "comparator cmp \<Longrightarrow> sorted_nodes cmp ns \<Longrightarrow>
   map_of (g_tree_insert_node cmp k v ns) = (map_of ns)(k \<mapsto> v)"
proof (induction ns)
  case Nil
  then show ?case by simp
next
  case (Cons a ns)
  obtain k' v' where a: "a = (k', v')" by (cases a)
  have tl: "sorted_nodes cmp ns" using Cons.prems by (simp add: sorted_nodes_def)
  show ?case
  proof (cases "cmp k k' = 0")
    case True
    with Cons.prems(1) have "k = k'" by (simp add: comparator_def)
    with True show ?thesis by (auto simp: a)
  next
    case False
    with Cons.prems(1) have ne: "k \<noteq> k'" by (simp add: comparator_def)
    show ?thesis
    proof (cases "cmp k k' < 0")
      case True
      with False show ?thesis by (intro ext) (simp add: a)
    next
      case gt: False
      with False ne Cons.IH [OF Cons.prems(1) tl] show ?thesis
        by (intro ext) (simp add: a)
    qed
  qed
qed


lemma tree_ok_insert: "tree_ok t \<Longrightarrow> tree_ok (g_tree_insert t k v)"
  by (simp add: tree_ok_def g_tree_insert_def sorted_g_tree_insert_node)

lemma map_of_g_tree_insert:
  "tree_ok t \<Longrightarrow> map_of (nodes (g_tree_insert t k v)) = (map_of (nodes t))(k \<mapsto> v)"
  by (simp add: tree_ok_def g_tree_insert_def map_of_g_tree_insert_node)

lemma tree_ok_new: "comparator cmp \<Longrightarrow> tree_ok (g_tree_new_full cmp)"
  by (simp add: tree_ok_def g_tree_new_full_def sorted_nodes_def)

lemma kept_vp_pairs_foreach:
  "kept_by_insert P \<Longrightarrow> P t \<Longrightarrow> P (vp_pairs_foreach E vp ev vpc t)"
  by (simp add: kept_by_insert_def vp_pairs_foreach_def Let_def)

lemma kept_vp_msg_nvpairs_foreach:
  "kept_by_insert P \<Longrightarrow> P t \<Longrightarrow> P (vp_msg_nvpairs_foreach E vp nv t)"
  by (cases nv) (simp add: kept_by_insert_def vp_msg_nvpairs_foreach_def)

lemma kept_fold:
  assumes "\<And>x t. P t \<Longrightarrow> P (f x t)"
  shows "P t \<Longrightarrow> P (fold f xs t)"
  by (induction xs arbitrary: t) (simp_all add: assms)

lemma kept_vp_merge_other_set:
  "kept_by_insert P \<Longrightarrow> P t \<Longrightarrow> P (vp_merge_other_set E vp ev tbl t exclude)"
  by (induction tbl arbitrary: t) (simp_all add: kept_by_insert_def)

lemma kept_value_pairs_scope_set:
  assumes k: "kept_by_insert P" and p: "P (g_tree_new_full compare_func)"
  shows "P (value_pairs_scope_set E vp compare_func ev)"
proof -
  have 1: "P (base_set_nvpairs E vp ev (g_tree_new_full compare_func))"
    using p by (simp add: base_set_nvpairs_def kept_fold kept_vp_msg_nvpairs_foreach [OF k])
  then have 2: "P (base_set_macros E vp ev (base_set_nvpairs E vp ev (g_tree_new_full compare_func)))"
    by (simp add: base_set_macros_def vp_merge_macros_def kept_vp_merge_other_set [OF k])
  have step: "\<And>t. P t \<Longrightarrow> P (base_set_rfc3164 E vp ev t)"
       "\<And>t. P t \<Longrightarrow> P (base_set_rfc5424 E vp ev t)"
       "\<And>t. P t \<Longrightarrow> P (base_set_selected_macros E vp ev t)"
       "\<And>t. P t \<Longrightarrow> P (base_set_all_macros E vp ev t)"
       "\<And>t. P t \<Longrightarrow> P (base_set_pairs E vp ev t)"
    by (simp_all add: base_set_rfc3164_def base_set_rfc5424_def base_set_selected_macros_def
          base_set_all_macros_def base_set_pairs_def vp_merge_set_def
          kept_vp_merge_other_set [OF k] kept_fold kept_vp_pairs_foreach [OF k])
  show ?thesis
    unfolding value_pairs_scope_set_def using 2 step by blast
qed

lemma in_g_tree_insert_node_value:
  "x \<in> set (g_tree_insert_node cmp k v ns) \<Longrightarrow> snd x = v \<or> x \<in> set ns"
  by (induction ns) (auto split: if_splits)

lemma kept_values_nonempty: "kept_by_insert values_nonempty"
  unfolding kept_by_insert_def values_nonempty_def g_tree_insert_def list_all_iff
  using in_g_tree_insert_node_value by fastforce

lemma kept_tree_ok: "kept_by_insert tree_ok"
  by (simp add: kept_by_insert_def tree_ok_insert)

lemma values_nonempty_scope_set: "values_nonempty (value_pairs_scope_set E vp compare_func ev)"
  by (rule kept_value_pairs_scope_set [OF kept_values_nonempty])
     (simp add: values_nonempty_def g_tree_new_full_def)

lemma fold_pairs_keeps:
  assumes ok: "tree_ok t"
    and m: "map_of (nodes t) k = Some x"
    and later: "\<forall>q\<in>set post. pair_rendering E ev q \<noteq> [] \<longrightarrow> vp_transform_apply vp (pair_name q) \<noteq> k"
  shows "map_of (nodes (fold (vp_pairs_foreach E vp ev) post t)) k = Some x"
  using assms
proof (induction post arbitrary: t)
  case Nil
  then show ?case by simp
next
  case (Cons q post)
  have ok': "tree_ok (vp_pairs_foreach E vp ev q t)"
    using Cons.prems(1) by (rule kept_vp_pairs_foreach [OF kept_tree_ok])
  have "map_of (nodes (vp_pairs_foreach E vp ev q t)) k = Some x"
    using Cons.prems
    by (auto simp: vp_pairs_foreach_def Let_def map_of_g_tree_insert pair_rendering_def)
  with ok' Cons.prems(3) show ?case
    by (simp add: Cons.IH)
qed

lemma fold_pairs_lookup:
  assumes ok: "tree_ok t"
    and r: "pair_rendering E ev vpc \<noteq> []"
    and later: "\<forall>q\<in>set post. pair_rendering E ev q \<noteq> [] \<longrightarrow>
                  vp_transform_apply vp (pair_name q) \<noteq> vp_transform_apply vp (pair_name vpc)"
  shows "map_of (nodes (fold (vp_pairs_foreach E vp ev) (pre @ vpc # post) t))
           (vp_transform_apply vp (pair_name vpc)) =
         Some ((sb_th_gstring_acquire E)
                 \<lparr>sb_type_hint := template_type_hint (pair_template vpc),
                  sb_string := pair_rendering E ev vpc\<rparr>)"
proof -
  let ?t1 = "fold (vp_pairs_foreach E vp ev) pre t"
  have ok1: "tree_ok ?t1"
    using ok by (simp add: kept_fold kept_vp_pairs_foreach [OF kept_tree_ok])
  then have ok2: "tree_ok (vp_pairs_foreach E vp ev vpc ?t1)"
    by (rule kept_vp_pairs_foreach [OF kept_tree_ok])
  have "map_of (nodes (vp_pairs_foreach E vp ev vpc ?t1)) (vp_transform_apply vp (pair_name vpc)) =
         Some ((sb_th_gstring_acquire E)
                 \<lparr>sb_type_hint := template_type_hint (pair_template vpc),
                  sb_string := pair_rendering E ev vpc\<rparr>)"
    using r ok1 by (simp add: vp_pairs_foreach_def Let_def map_of_g_tree_insert pair_rendering_def)
  from fold_pairs_keeps [OF ok2 this later] show ?thesis by simp
qed


text \<open>
  C1, as the claim states it, fails when two explicit pairs share a transformed key: with
  the pairs \<open>a=x\<close> and \<open>a=y\<close> configured in this order, the first pair is configured
  and renders to the non-empty \<open>x\<close>, yet the tree maps \<open>a\<close> to \<open>y\<close>.
\<close>

theorem explicit_pairs_counterexample:
  "example_pair ''a'' ''x'' \<in>
     set (vpairs (value_pairs_new\<lparr>vpairs := [example_pair ''a'' ''x'', example_pair ''a'' ''y'']\<rparr>)) \<and>
   pair_rendering example_E (example_ev []) (example_pair ''a'' ''x'') = ''x'' \<and>
   map_of (nodes (value_pairs_scope_set example_E
                    (value_pairs_new\<lparr>vpairs := [example_pair ''a'' ''x'', example_pair ''a'' ''y'']\<rparr>)
                    strcmp (example_ev [])))
     (vp_transform_apply
        (value_pairs_new\<lparr>vpairs := [example_pair ''a'' ''x'', example_pair ''a'' ''y'']\<rparr>)
        (pair_name (example_pair ''a'' ''x''))) =
   Some \<lparr>sb_type_hint = TYPE_HINT_LITERAL, sb_string = ''y''\<rparr>"
  by (simp add: example_defs scope_set_defs pair_rendering_def Let_def)

text \<open>
  C1 (amended). Explicit pairs are evaluated last. For every configured explicit pair
  whose rendering is not empty and that no later explicit pair with a non-empty rendering
  follows at the same transformed key, the tree that the traversal gets maps the
  transformed name to the rendered template with the type hint of the template, whatever
  the phases of the name-value pairs, of the macros selected by pattern, of RFC3164, of
  RFC5424, of the selected macros and of all macros have put at that key. This holds for
  both comparison functions of the source, \<open>strcmp\<close> of the flat traversal and
  \<open>vp_walk_cmp\<close> of the walker.
\<close>

theorem explicit_pairs_evaluated_last:
  assumes cmp: "compare_func = strcmp \<or> compare_func = vp_walk_cmp"
    and conf: "vpairs vp = pre @ vpc # post"
    and r: "pair_rendering E ev vpc \<noteq> []"
    and later: "\<forall>q\<in>set post. pair_rendering E ev q \<noteq> [] \<longrightarrow>
                  vp_transform_apply vp (pair_name q) \<noteq> vp_transform_apply vp (pair_name vpc)"
  shows "map_of (nodes (value_pairs_scope_set E vp compare_func ev))
           (vp_transform_apply vp (pair_name vpc)) =
         Some \<lparr>sb_type_hint = template_type_hint (pair_template vpc),
               sb_string = pair_rendering E ev vpc\<rparr>"
proof -
  from cmp have "comparator compare_func"
    using comparator_strcmp comparator_vp_walk_cmp by blast
  then have "tree_ok (g_tree_new_full compare_func :: SBTHGString GTree)"
    by (rule tree_ok_new)
  then have ok: "tree_ok (base_set_all_macros E vp ev
         (base_set_selected_macros E vp ev
           (base_set_rfc5424 E vp ev
             (base_set_rfc3164 E vp ev
               (base_set_macros E vp ev
                 (base_set_nvpairs E vp ev (g_tree_new_full compare_func)))))))"
    by (simp add: base_set_nvpairs_def base_set_macros_def base_set_rfc3164_def
          base_set_rfc5424_def base_set_selected_macros_def base_set_all_macros_def
          vp_merge_set_def vp_merge_macros_def kept_vp_merge_other_set [OF kept_tree_ok]
          kept_fold kept_vp_msg_nvpairs_foreach [OF kept_tree_ok])
  have "(sb_th_gstring_acquire E)
           \<lparr>sb_type_hint := template_type_hint (pair_template vpc),
            sb_string := pair_rendering E ev vpc\<rparr> =
        \<lparr>sb_type_hint = template_type_hint (pair_template vpc),
         sb_string = pair_rendering E ev vpc\<rparr>"
    by simp
  with fold_pairs_lookup [OF ok r later, of pre] show ?thesis
    by (simp add: value_pairs_scope_set_def base_set_pairs_def conf)
qed

theorem explicit_pairs_evaluated_last_witness:
  "map_of (nodes (value_pairs_scope_set example_E
                    (value_pairs_new\<lparr>scopes := VPS_RFC3164,
                                      vpairs := [example_pair ''HOST'' ''override'',
                                                 example_pair ''X'' ''y'']\<rparr>)
                    strcmp (example_ev [(1, ''HOST'', ''h'')])))
     ''HOST'' =
   Some \<lparr>sb_type_hint = TYPE_HINT_LITERAL, sb_string = ''override''\<rparr>"
  using explicit_pairs_evaluated_last
    [of strcmp "value_pairs_new\<lparr>scopes := VPS_RFC3164,
                                  vpairs := [example_pair ''HOST'' ''override'',
                                             example_pair ''X'' ''y'']\<rparr>"
        "[]" "example_pair ''HOST'' ''override''" "[example_pair ''X'' ''y'']"
        example_E "example_ev [(1, ''HOST'', ''h'')]"]
  by (simp add: example_defs pair_rendering_def vp_transform_apply_def)


section \<open>Properties of the merging of the built-in tables\<close>

lemma last_filter_in:
  "filter P xs \<noteq> [] \<Longrightarrow> last (filter P xs) \<in> set xs \<and> P (last (filter P xs))"
  using last_in_set [of "filter P xs"] by auto

lemma vp_find_in_set_seed_true:
  "vp_find_in_set E vp n True =
     (filter (\<lambda>p. vp_pattern_spec_eval E p n) (patterns vp) = [] \<or>
      incl (last (filter (\<lambda>p. vp_pattern_spec_eval E p n) (patterns vp))))"
  by (simp add: vp_find_in_set_def vp_patterns_loop_last_match)

lemma vp_find_in_set_seed_false:
  "vp_find_in_set E vp n False =
     (filter (\<lambda>p. vp_pattern_spec_eval E p n) (patterns vp) \<noteq> [] \<and>
      incl (last (filter (\<lambda>p. vp_pattern_spec_eval E p n) (patterns vp))))"
  by (simp add: vp_find_in_set_def vp_patterns_loop_last_match)

text \<open>
  C5. The seed bit that the merging of a built-in table hands to the evaluation of the
  patterns is asymmetric. A table merged because its scope bit is set (the phases of
  RFC3164, RFC5424, the selected macros and all macros, through \<open>vp_merge_set\<close>) is
  merged with the seed true: an entry is taken unless the last pattern matching its name
  excludes it, so a name that no pattern matches is included and a name left out has a
  pattern that excludes it. The table of all macros merged only because the list of
  patterns is not empty (\<open>vp_merge_macros\<close>) is merged with the seed false: an entry
  is taken only if a pattern matches its name and the last such pattern includes it, so a
  name that no pattern matches is left out.
\<close>

theorem builtin_sets_seed_asymmetry:
  "vp_merge_set E vp ev (s # tbl) dest =
     vp_merge_set E vp ev tbl
       (if (filter (\<lambda>p. vp_pattern_spec_eval E p (spec_name s)) (patterns vp) = [] \<or>
            incl (last (filter (\<lambda>p. vp_pattern_spec_eval E p (spec_name s)) (patterns vp)))) \<and>
           vp_spec_render E ev s \<noteq> []
        then g_tree_insert dest (vp_transform_apply vp (spec_name s))
               ((sb_th_gstring_acquire E)\<lparr>sb_string := vp_spec_render E ev s\<rparr>)
        else dest) \<and>
   vp_merge_other_set E vp ev (s # tbl) dest False =
     vp_merge_other_set E vp ev tbl
       (if (filter (\<lambda>p. vp_pattern_spec_eval E p (spec_name s)) (patterns vp) \<noteq> [] \<and>
            incl (last (filter (\<lambda>p. vp_pattern_spec_eval E p (spec_name s)) (patterns vp)))) \<and>
           vp_spec_render E ev s \<noteq> []
        then g_tree_insert dest (vp_transform_apply vp (spec_name s))
               ((sb_th_gstring_acquire E)\<lparr>sb_string := vp_spec_render E ev s\<rparr>)
        else dest) False \<and>
   base_set_macros E vp ev dest =
     (if patterns vp \<noteq> [] then vp_merge_other_set E vp ev (all_macros E) dest False else dest) \<and>
   base_set_rfc3164 E vp ev dest =
     (if scopes vp AND (VPS_RFC3164 + VPS_RFC5424 + VPS_SELECTED_MACROS) \<noteq> 0
      then vp_merge_set E vp ev (value_pairs_init_set E rfc3164) dest else dest) \<and>
   base_set_rfc5424 E vp ev dest =
     (if scopes vp AND VPS_RFC5424 \<noteq> 0
      then vp_merge_set E vp ev (value_pairs_init_set E rfc5424) dest else dest) \<and>
   base_set_selected_macros E vp ev dest =
     (if scopes vp AND VPS_SELECTED_MACROS \<noteq> 0
      then vp_merge_set E vp ev (value_pairs_init_set E selected_macros) dest else dest) \<and>
   base_set_all_macros E vp ev dest =
     (if scopes vp AND VPS_ALL_MACROS \<noteq> 0
      then vp_merge_set E vp ev (all_macros E) dest else dest) \<and>
   ((\<forall>p\<in>set (patterns vp). \<not> vp_pattern_spec_eval E p n) \<longrightarrow>
      vp_find_in_set E vp n True \<and> \<not> vp_find_in_set E vp n False) \<and>
   (\<not> vp_find_in_set E vp n True \<longrightarrow>
      (\<exists>p\<in>set (patterns vp). vp_pattern_spec_eval E p n \<and> \<not> incl p)) \<and>
   (vp_find_in_set E vp n False \<longrightarrow>
      (\<exists>p\<in>set (patterns vp). vp_pattern_spec_eval E p n \<and> incl p))"
proof -
  let ?ms = "filter (\<lambda>p. vp_pattern_spec_eval E p n) (patterns vp)"
  have a: "(\<forall>p\<in>set (patterns vp). \<not> vp_pattern_spec_eval E p n) \<longrightarrow>
      vp_find_in_set E vp n True \<and> \<not> vp_find_in_set E vp n False"
    by (simp add: vp_find_in_set_seed_true vp_find_in_set_seed_false filter_empty_conv)
  have b: "\<not> vp_find_in_set E vp n True \<longrightarrow>
      (\<exists>p\<in>set (patterns vp). vp_pattern_spec_eval E p n \<and> \<not> incl p)"
    using last_filter_in [of "\<lambda>p. vp_pattern_spec_eval E p n" "patterns vp"]
    unfolding vp_find_in_set_seed_true by blast
  have c: "vp_find_in_set E vp n False \<longrightarrow>
      (\<exists>p\<in>set (patterns vp). vp_pattern_spec_eval E p n \<and> incl p)"
    using last_filter_in [of "\<lambda>p. vp_pattern_spec_eval E p n" "patterns vp"]
    unfolding vp_find_in_set_seed_false by blast
  have d: "vp_merge_set E vp ev (s # tbl) dest =
     vp_merge_set E vp ev tbl
       (if (filter (\<lambda>p. vp_pattern_spec_eval E p (spec_name s)) (patterns vp) = [] \<or>
            incl (last (filter (\<lambda>p. vp_pattern_spec_eval E p (spec_name s)) (patterns vp)))) \<and>
           vp_spec_render E ev s \<noteq> []
        then g_tree_insert dest (vp_transform_apply vp (spec_name s))
               ((sb_th_gstring_acquire E)\<lparr>sb_string := vp_spec_render E ev s\<rparr>)
        else dest)"
    by (simp add: vp_merge_set_def vp_find_in_set_seed_true)
  have e: "vp_merge_other_set E vp ev (s # tbl) dest False =
     vp_merge_other_set E vp ev tbl
       (if (filter (\<lambda>p. vp_pattern_spec_eval E p (spec_name s)) (patterns vp) \<noteq> [] \<and>
            incl (last (filter (\<lambda>p. vp_pattern_spec_eval E p (spec_name s)) (patterns vp)))) \<and>
           vp_spec_render E ev s \<noteq> []
        then g_tree_insert dest (vp_transform_apply vp (spec_name s))
               ((sb_th_gstring_acquire E)\<lparr>sb_string := vp_spec_render E ev s\<rparr>)
        else dest) False"
    by (simp add: vp_find_in_set_seed_false)
  have f: "base_set_macros E vp ev dest =
     (if patterns vp \<noteq> [] then vp_merge_other_set E vp ev (all_macros E) dest False else dest)"
    by (simp add: base_set_macros_def vp_merge_macros_def patterns_size_def)
  show ?thesis
    unfolding base_set_rfc3164_def base_set_rfc5424_def base_set_selected_macros_def
      base_set_all_macros_def
    using a b c d e f by simp
qed

theorem builtin_sets_seed_asymmetry_witness:
  "nodes (base_set_rfc3164 example_E (value_pairs_new\<lparr>scopes := VPS_RFC3164, patterns := [\<lparr>pattern = ''PROG*'', incl = False\<rparr>]\<rparr>)
            (example_ev [(1, ''HOST'', ''h''), (2, ''PROGRAM'', ''x'')]) (g_tree_new_full strcmp)) =
     [(''HOST'', \<lparr>sb_type_hint = TYPE_HINT_STRING, sb_string = ''h''\<rparr>)] \<and>
   nodes (base_set_macros example_E (value_pairs_new\<lparr>scopes := VPS_RFC3164, patterns := [\<lparr>pattern = ''PROG*'', incl = True\<rparr>]\<rparr>)
            (example_ev [(1, ''HOST'', ''h''), (2, ''PROGRAM'', ''x'')]) (g_tree_new_full strcmp)) =
     [(''PROGRAM'', \<lparr>sb_type_hint = TYPE_HINT_STRING, sb_string = ''x''\<rparr>)] \<and>
   vp_find_in_set example_E (value_pairs_new\<lparr>patterns := [\<lparr>pattern = ''PROG*'', incl = True\<rparr>]\<rparr>) ''HOST'' True \<and>
   vp_find_in_set example_E (value_pairs_new\<lparr>patterns := [\<lparr>pattern = ''PROG*'', incl = True\<rparr>]\<rparr>) ''HOST'' False = False"
proof -
  note t = builtin_sets_seed_asymmetry
    [of example_E "value_pairs_new\<lparr>patterns := [\<lparr>pattern = ''PROG*'', incl = True\<rparr>]\<rparr>"
       "example_ev []" "value_pair_spec ''HOST''" "[]" "g_tree_new_full strcmp" "''HOST''"]
  have h: "\<forall>p\<in>set (patterns (value_pairs_new\<lparr>patterns := [\<lparr>pattern = ''PROG*'', incl = True\<rparr>]\<rparr>)).
             \<not> vp_pattern_spec_eval example_E p ''HOST''"
    by (simp add: example_defs vp_pattern_spec_eval_def)
  from t h have "vp_find_in_set example_E (value_pairs_new\<lparr>patterns := [\<lparr>pattern = ''PROG*'', incl = True\<rparr>]\<rparr>) ''HOST'' True \<and>
     \<not> vp_find_in_set example_E (value_pairs_new\<lparr>patterns := [\<lparr>pattern = ''PROG*'', incl = True\<rparr>]\<rparr>) ''HOST'' False"
    by blast
  moreover have "nodes (base_set_rfc3164 example_E (value_pairs_new\<lparr>scopes := VPS_RFC3164, patterns := [\<lparr>pattern = ''PROG*'', incl = False\<rparr>]\<rparr>)
            (example_ev [(1, ''HOST'', ''h''), (2, ''PROGRAM'', ''x'')]) (g_tree_new_full strcmp)) =
     [(''HOST'', \<lparr>sb_type_hint = TYPE_HINT_STRING, sb_string = ''h''\<rparr>)]"
    by (simp add: example_defs scope_set_defs)
  moreover have "nodes (base_set_macros example_E (value_pairs_new\<lparr>scopes := VPS_RFC3164, patterns := [\<lparr>pattern = ''PROG*'', incl = True\<rparr>]\<rparr>)
            (example_ev [(1, ''HOST'', ''h''), (2, ''PROGRAM'', ''x'')]) (g_tree_new_full strcmp)) =
     [(''PROGRAM'', \<lparr>sb_type_hint = TYPE_HINT_STRING, sb_string = ''x''\<rparr>)]"
    by (simp add: example_defs scope_set_defs)
  ultimately show ?thesis by simp
qed



section \<open>Properties of the command line\<close>

lemma strchr_None: "(strchr s c = None) = (c \<notin> set s)"
  by (simp add: strchr_def)

lemma add_scopes_Inr: "(\<exists>vp'. add_scopes vp scs = Inr vp') = list_all known_scope scs"
proof (induction scs arbitrary: vp)
  case Nil
  show ?case by simp
next
  case (Cons sc scs)
  show ?case
  proof (cases "map_of value_pair_scope sc")
    case None
    then have "\<not> known_scope sc"
      by (simp add: known_scope_def map_of_eq_None_iff)
    with None show ?thesis
      by (simp add: value_pairs_add_scope_def cfg_process_flag_def)
  next
    case (Some m)
    then have "known_scope sc"
      unfolding known_scope_def by (metis domI dom_map_of_conv_image_fst)
    with Some Cons.IH show ?thesis
      by (simp add: value_pairs_add_scope_def cfg_process_flag_def)
  qed
qed

lemma ctx_open_finish [simp]: "\<not> ctx_open (vp_cmdline_parse_rekey_finish args)"
  by (simp add: ctx_open_def vp_cmdline_parse_rekey_finish_def)

lemma rekey_verify_None: "(vp_cmdline_rekey_verify args = None) = (\<not> ctx_open args)"
  by (auto simp: vp_cmdline_rekey_verify_def ctx_open_def split: option.splits)

lemma vp_options_accepts:
  "(\<exists>args'. vp_options cfg opt val args = Inr args') = option_accepted cfg (ctx_open args) opt val"
proof (cases opt)
  case OPT_scope
  then show ?thesis
    using add_scopes_Inr [of "args_vp (vp_cmdline_parse_rekey_finish args)" "g_strsplit val (CHR '','')"]
    by (auto simp: vp_cmdline_parse_scope_def Let_def split: sum.splits)
next
  case OPT_pair
  then show ?thesis
    by (auto simp: vp_cmdline_parse_pair_def pair_accepted_def strchr_None Let_def
             split: prod.splits option.splits)
next
  case OPT_REMAINING
  then show ?thesis
    by (auto simp: vp_cmdline_parse_pair_or_key_def vp_cmdline_parse_key_def
                   vp_cmdline_parse_pair_def pair_accepted_def strchr_None Let_def
             split: prod.splits option.splits)
next
  case OPT_shift
  then show ?thesis
    using rekey_verify_None [of args]
    by (auto simp: vp_cmdline_parse_rekey_shift_def split: option.splits)
next
  case OPT_add_prefix
  then show ?thesis
    using rekey_verify_None [of args]
    by (auto simp: vp_cmdline_parse_rekey_add_prefix_def split: option.splits)
next
  case OPT_replace_prefix
  then show ?thesis
    using rekey_verify_None [of args]
    by (auto simp: vp_cmdline_parse_rekey_replace_prefix_def strchr_None
             split: option.splits prod.splits)
next
  case OPT_replace
  then show ?thesis
    using rekey_verify_None [of args]
    by (auto simp: vp_cmdline_parse_rekey_replace_prefix_def strchr_None
             split: option.splits prod.splits)
qed (simp_all add: vp_cmdline_parse_exclude_def vp_cmdline_parse_key_def
       vp_cmdline_parse_rekey_def Let_def)

lemma vp_options_ctx:
  "vp_options cfg opt val args = Inr args' \<Longrightarrow>
   ctx_open args' = (if is_transform_option opt then ctx_open args else opens_rekey_context opt val)"
proof (cases opt)
  case OPT_scope
  assume "vp_options cfg opt val args = Inr args'"
  with OPT_scope show ?thesis
    by (auto simp: vp_cmdline_parse_scope_def Let_def is_transform_option_def
          opens_rekey_context_def ctx_open_def vp_cmdline_parse_rekey_finish_def
          split: sum.splits)
next
  case OPT_exclude
  assume "vp_options cfg opt val args = Inr args'"
  with OPT_exclude show ?thesis
    by (auto simp: vp_cmdline_parse_exclude_def Let_def is_transform_option_def
          opens_rekey_context_def ctx_open_def vp_cmdline_parse_rekey_finish_def)
next
  case OPT_key
  assume "vp_options cfg opt val args = Inr args'"
  with OPT_key show ?thesis
    by (auto simp: vp_cmdline_parse_key_def vp_cmdline_start_key_def Let_def
          is_transform_option_def opens_rekey_context_def ctx_open_def)
next
  case OPT_rekey
  assume "vp_options cfg opt val args = Inr args'"
  with OPT_rekey show ?thesis
    by (auto simp: vp_cmdline_parse_rekey_def vp_cmdline_start_key_def
          is_transform_option_def opens_rekey_context_def ctx_open_def)
next
  case OPT_pair
  assume "vp_options cfg opt val args = Inr args'"
  with OPT_pair show ?thesis
    by (auto simp: vp_cmdline_parse_pair_def Let_def is_transform_option_def
          opens_rekey_context_def ctx_open_def vp_cmdline_parse_rekey_finish_def
          split: if_splits prod.splits option.splits)
next
  case OPT_REMAINING
  assume "vp_options cfg opt val args = Inr args'"
  with OPT_REMAINING show ?thesis
    by (auto simp: vp_cmdline_parse_pair_or_key_def vp_cmdline_parse_pair_def
          vp_cmdline_parse_key_def vp_cmdline_start_key_def Let_def is_transform_option_def
          opens_rekey_context_def ctx_open_def vp_cmdline_parse_rekey_finish_def strchr_None
          split: if_splits prod.splits option.splits)
next
  case OPT_shift
  assume "vp_options cfg opt val args = Inr args'"
  with OPT_shift show ?thesis
    using rekey_verify_None [of args]
    by (auto simp: vp_cmdline_parse_rekey_shift_def is_transform_option_def ctx_open_def
          split: option.splits)
next
  case OPT_add_prefix
  assume "vp_options cfg opt val args = Inr args'"
  with OPT_add_prefix show ?thesis
    using rekey_verify_None [of args]
    by (auto simp: vp_cmdline_parse_rekey_add_prefix_def is_transform_option_def ctx_open_def
          split: option.splits)
next
  case OPT_replace_prefix
  assume "vp_options cfg opt val args = Inr args'"
  with OPT_replace_prefix show ?thesis
    using rekey_verify_None [of args]
    by (auto simp: vp_cmdline_parse_rekey_replace_prefix_def is_transform_option_def ctx_open_def
          split: option.splits if_splits prod.splits)
next
  case OPT_replace
  assume "vp_options cfg opt val args = Inr args'"
  with OPT_replace show ?thesis
    using rekey_verify_None [of args]
    by (auto simp: vp_cmdline_parse_rekey_replace_prefix_def is_transform_option_def ctx_open_def
          split: option.splits if_splits prod.splits)
qed

lemma g_option_context_parse_accepts:
  "(\<exists>args'. g_option_context_parse cfg argv args = Inr args') =
     cmdline_accepted cfg (ctx_open args) argv"
proof (induction argv arbitrary: args)
  case Nil
  show ?case by simp
next
  case (Cons a argv)
  obtain opt val where a: "a = (opt, val)" by (cases a)
  show ?case
  proof (cases "vp_options cfg opt val args")
    case (Inl e)
    with vp_options_accepts [of cfg opt val args] show ?thesis
      by (simp add: a)
  next
    case (Inr args1)
    with vp_options_accepts [of cfg opt val args] vp_options_ctx [OF Inr] Cons.IH [of args1]
    show ?thesis
      by (simp add: a)
  qed
qed

lemma cmdline_accepted_append:
  "cmdline_accepted cfg b (pre @ rest) =
     (cmdline_accepted cfg b pre \<and> cmdline_accepted cfg (rekey_context_open b pre) rest)"
  by (induction pre arbitrary: b) auto

lemma value_pairs_new_from_cmdline_accepts:
  "(\<exists>vp. value_pairs_new_from_cmdline cfg argv = Inr vp) = cmdline_accepted cfg False argv"
  using g_option_context_parse_accepts
    [of cfg argv "\<lparr>args_vp = value_pairs_new, args_vpts = None, args_key = None\<rparr>"]
  by (auto simp: value_pairs_new_from_cmdline_def ctx_open_def split: sum.splits)


text \<open>
  C9. \<open>value_pairs_new_from_cmdline\<close> returns an error and no object whenever the
  argument vector has a \<open>--pair\<close> argument without an equal sign, a
  \<open>--replace-prefix\<close> (or \<open>--replace\<close>) argument without an equal sign, a
  transformation option where no rekey context is open, or a \<open>--scope\<close> argument with
  an unknown scope name. It returns an object whenever every option is accepted where it
  stands, and the object is the one the callbacks have built, after the last rekey
  context is flushed.
\<close>

theorem cmdline_errors_and_success:
  "(argv = pre @ (opt, val) # post \<and>
    ((opt = OPT_pair \<and> CHR ''='' \<notin> set val) \<or>
     ((opt = OPT_replace_prefix \<or> opt = OPT_replace) \<and> CHR ''='' \<notin> set val) \<or>
     (is_transform_option opt \<and> \<not> rekey_context_open False pre) \<or>
     (opt = OPT_scope \<and> \<not> list_all known_scope (g_strsplit val (CHR '','')))) \<longrightarrow>
    (\<exists>e. value_pairs_new_from_cmdline cfg argv = Inl e)) \<and>
   (cmdline_accepted cfg False argv \<longrightarrow>
    (\<exists>args. g_option_context_parse cfg argv
               \<lparr>args_vp = value_pairs_new, args_vpts = None, args_key = None\<rparr> = Inr args \<and>
            value_pairs_new_from_cmdline cfg argv =
              Inr (args_vp (vp_cmdline_parse_rekey_finish args))))"
proof -
  have err: "\<exists>e. value_pairs_new_from_cmdline cfg argv = Inl e"
    if split: "argv = pre @ (opt, val) # post"
      and bad: "(opt = OPT_pair \<and> CHR ''='' \<notin> set val) \<or>
         ((opt = OPT_replace_prefix \<or> opt = OPT_replace) \<and> CHR ''='' \<notin> set val) \<or>
         (is_transform_option opt \<and> \<not> rekey_context_open False pre) \<or>
         (opt = OPT_scope \<and> \<not> list_all known_scope (g_strsplit val (CHR '','')))"
  proof -
    from bad have "\<not> option_accepted cfg (rekey_context_open False pre) opt val"
      by (cases opt) (auto simp: pair_accepted_def is_transform_option_def)
    then have "\<not> cmdline_accepted cfg False argv"
      by (simp add: split cmdline_accepted_append)
    with value_pairs_new_from_cmdline_accepts [of cfg argv]
    show ?thesis
      by (cases "value_pairs_new_from_cmdline cfg argv") auto
  qed
  have ok: "\<exists>args. g_option_context_parse cfg argv
               \<lparr>args_vp = value_pairs_new, args_vpts = None, args_key = None\<rparr> = Inr args \<and>
            value_pairs_new_from_cmdline cfg argv =
              Inr (args_vp (vp_cmdline_parse_rekey_finish args))"
    if "cmdline_accepted cfg False argv"
  proof -
    from that g_option_context_parse_accepts
      [of cfg argv "\<lparr>args_vp = value_pairs_new, args_vpts = None, args_key = None\<rparr>"]
    obtain args where "g_option_context_parse cfg argv
               \<lparr>args_vp = value_pairs_new, args_vpts = None, args_key = None\<rparr> = Inr args"
      by (auto simp: ctx_open_def)
    then show ?thesis
      by (simp add: value_pairs_new_from_cmdline_def)
  qed
  from err ok show ?thesis by blast
qed

theorem cmdline_errors_and_success_witness:
  "(\<exists>e. value_pairs_new_from_cmdline example_cfg
           [(OPT_scope, ''rfc3164''), (OPT_shift, ''2'')] = Inl e) \<and>
   (\<exists>args. g_option_context_parse example_cfg
              [(OPT_key, ''foo.*''), (OPT_shift, ''4''), (OPT_add_prefix, ''X.'')]
              \<lparr>args_vp = value_pairs_new, args_vpts = None, args_key = None\<rparr> = Inr args \<and>
            value_pairs_new_from_cmdline example_cfg
              [(OPT_key, ''foo.*''), (OPT_shift, ''4''), (OPT_add_prefix, ''X.'')] =
              Inr (args_vp (vp_cmdline_parse_rekey_finish args)))"
proof -
  have bad: "[(OPT_scope, ''rfc3164''), (OPT_shift, ''2'')] =
               [(OPT_scope, ''rfc3164'')] @ (OPT_shift, ''2'') # [] \<and>
             ((OPT_shift = OPT_pair \<and> CHR ''='' \<notin> set ''2'') \<or>
              ((OPT_shift = OPT_replace_prefix \<or> OPT_shift = OPT_replace) \<and> CHR ''='' \<notin> set ''2'') \<or>
              (is_transform_option OPT_shift \<and>
               \<not> rekey_context_open False [(OPT_scope, ''rfc3164'')]) \<or>
              (OPT_shift = OPT_scope \<and> \<not> list_all known_scope (g_strsplit ''2'' (CHR '',''))))"
    by (simp add: is_transform_option_def opens_rekey_context_def)
  have good: "cmdline_accepted example_cfg False
                [(OPT_key, ''foo.*''), (OPT_shift, ''4''), (OPT_add_prefix, ''X.'')]"
    by (simp add: is_transform_option_def opens_rekey_context_def)
  from cmdline_errors_and_success
    [of "[(OPT_scope, ''rfc3164''), (OPT_shift, ''2'')]" "[(OPT_scope, ''rfc3164'')]"
        OPT_shift "''2''" "[]" example_cfg] bad
  have 1: "\<exists>e. value_pairs_new_from_cmdline example_cfg
           [(OPT_scope, ''rfc3164''), (OPT_shift, ''2'')] = Inl e"
    by blast
  from cmdline_errors_and_success
    [of "[(OPT_key, ''foo.*''), (OPT_shift, ''4''), (OPT_add_prefix, ''X.'')]" "[]"
        OPT_key "''foo.*''" "[]" example_cfg] good
  have 2: "\<exists>args. g_option_context_parse example_cfg
              [(OPT_key, ''foo.*''), (OPT_shift, ''4''), (OPT_add_prefix, ''X.'')]
              \<lparr>args_vp = value_pairs_new, args_vpts = None, args_key = None\<rparr> = Inr args \<and>
            value_pairs_new_from_cmdline example_cfg
              [(OPT_key, ''foo.*''), (OPT_shift, ''4''), (OPT_add_prefix, ''X.'')] =
              Inr (args_vp (vp_cmdline_parse_rekey_finish args))"
    by blast
  from 1 2 show ?thesis by blast
qed

section \<open>Properties of the walker\<close>

lemma frame_id_update [simp]: "frame_id (t\<lparr>wk_data := d\<rparr>) = frame_id t"
  by (simp add: frame_id_def)

lemma unwind_matches_id: "unwind_matches name t = id_matches name (frame_id t)"
  by (cases name) (simp_all add: unwind_matches_def frame_id_def)

lemma unwind_containers_shape:
  "map frame_id (fst (unwind_containers oe name st u)) =
     dropWhile (\<lambda>f. \<not> id_matches name f) (map frame_id st)"
  by (induction oe name st u rule: unwind_containers.induct)
     (auto simp: unwind_matches_id split: prod.splits)

lemma unwind_containers_log:
  "snd (snd (unwind_containers (log_obj_end ce) name st (u, l))) =
     l @ close_events (takeWhile (\<lambda>f. \<not> id_matches name f) (map frame_id st))
           (dropWhile (\<lambda>f. \<not> id_matches name f) (map frame_id st))"
proof (induction "log_obj_end ce" name st "(u, l)" arbitrary: u l rule: unwind_containers.induct)
  case (1 name)
  show ?case by simp
next
  case (2 name t)
  show ?case
  proof (cases "unwind_matches name t")
    case True
    then show ?thesis by (simp add: unwind_matches_id)
  next
    case False
    obtain r d pd u' where cb: "ce (Some (wk_key t)) (Some (wk_prefix t)) (Some (wk_data t))
                  None None u = (r, d, pd, u')"
      by (cases "ce (Some (wk_key t)) (Some (wk_prefix t)) (Some (wk_data t)) None None u") auto
    from False have nm: "\<not> id_matches name (frame_id t)" by (simp add: unwind_matches_id)
    have "unwind_containers (log_obj_end ce) name [t] (u, l) =
            ([], (u', l @ [ObjEnd (Some (wk_key t)) (Some (wk_prefix t)) None]))"
      using False by (simp add: log_obj_end_def cb)
    then show ?thesis
      using nm by (simp add: frame_id_def)
  qed
next
  case (3 name t p st)
  show ?case
  proof (cases "unwind_matches name t")
    case True
    then show ?thesis by (simp add: unwind_matches_id)
  next
    case False
    obtain r d pd u' where cb: "ce (Some (wk_key t)) (Some (wk_prefix t)) (Some (wk_data t))
                  (Some (wk_prefix p)) (Some (wk_data p)) u = (r, d, pd, u')"
      by (cases "ce (Some (wk_key t)) (Some (wk_prefix t)) (Some (wk_data t))
                  (Some (wk_prefix p)) (Some (wk_data p)) u") auto
    have lg: "log_obj_end ce (Some (wk_key t)) (Some (wk_prefix t)) (Some (wk_data t))
                  (Some (wk_prefix p)) (Some (wk_data p)) (u, l) =
             (r, d, pd, (u', l @ [ObjEnd (Some (wk_key t)) (Some (wk_prefix t)) (Some (wk_prefix p))]))"
      by (simp add: log_obj_end_def cb)
    have ih: "snd (snd (unwind_containers (log_obj_end ce) name (p\<lparr>wk_data := pd\<rparr> # st)
                 (u', l @ [ObjEnd (Some (wk_key t)) (Some (wk_prefix t)) (Some (wk_prefix p))]))) =
       (l @ [ObjEnd (Some (wk_key t)) (Some (wk_prefix t)) (Some (wk_prefix p))]) @
       close_events (takeWhile (\<lambda>f. \<not> id_matches name f) (map frame_id (p\<lparr>wk_data := pd\<rparr> # st)))
           (dropWhile (\<lambda>f. \<not> id_matches name f) (map frame_id (p\<lparr>wk_data := pd\<rparr> # st)))"
      using "3.hyps" [OF False lg [symmetric]] by simp
    have pp: "parent_prefix (takeWhile (\<lambda>f. \<not> id_matches name f) (frame_id p # map frame_id st) @
                dropWhile (\<lambda>f. \<not> id_matches name f) (frame_id p # map frame_id st)) = Some (wk_prefix p)"
      by (simp only: takeWhile_dropWhile_id) (simp add: frame_id_def)
    from False have nm: "\<not> id_matches name (frame_id t)" by (simp add: unwind_matches_id)
    have "unwind_containers (log_obj_end ce) name (t # p # st) (u, l) =
          unwind_containers (log_obj_end ce) name (p\<lparr>wk_data := pd\<rparr> # st)
                 (u', l @ [ObjEnd (Some (wk_key t)) (Some (wk_prefix t)) (Some (wk_prefix p))])"
      using False by (simp add: lg)
    then show ?thesis
      using ih nm pp
      by (simp add: frame_id_def [of t] del: takeWhile.simps dropWhile.simps)
         (simp add: nm [unfolded frame_id_def])
  qed
qed

lemma new_frames_step:
  "i < length tokens - 1 \<Longrightarrow>
   new_frames tokens i =
     (tokens ! i, vp_walker_name_combine_prefix tokens i,
      length (vp_walker_name_combine_prefix tokens i)) # new_frames tokens (Suc i)"
  by (simp add: new_frames_def upt_conv_Cons)

lemma new_frames_done: "\<not> i < length tokens - 1 \<Longrightarrow> new_frames tokens i = []"
  by (simp add: new_frames_def)

lemma frame_id_push [simp]:
  "frame_id (vp_walker_stack_push k p) = (k, p, length p)"
  by (simp add: frame_id_def vp_walker_stack_push_def)

lemma start_containers_shape:
  "map frame_id (fst (start_containers os tokens i st u)) =
     rev (new_frames tokens i) @ map frame_id st"
proof (induction os tokens i st u rule: start_containers.induct)
  case (1 os tokens i st u)
  show ?case
  proof (cases "i < length tokens - 1")
    case False
    then show ?thesis
      by (subst start_containers.simps) (simp add: new_frames_done)
  next
    case True
    show ?thesis
    proof (cases st)
      case Nil
      obtain r d pd u' where cb:
        "os (Some (tokens ! i)) (Some (vp_walker_name_combine_prefix tokens i))
            (Some None) None None u = (r, d, pd, u')"
        by (cases "os (Some (tokens ! i)) (Some (vp_walker_name_combine_prefix tokens i))
            (Some None) None None u") auto
      from "1.IH"(1) [OF True Nil cb [symmetric] refl refl] True Nil cb
      show ?thesis
        by (subst start_containers.simps) (simp add: new_frames_step)
    next
      case (Cons p st')
      obtain r d pd u' where cb:
        "os (Some (tokens ! i)) (Some (vp_walker_name_combine_prefix tokens i))
            (Some None) (Some (wk_prefix p)) (Some (wk_data p)) u = (r, d, pd, u')"
        by (cases "os (Some (tokens ! i)) (Some (vp_walker_name_combine_prefix tokens i))
            (Some None) (Some (wk_prefix p)) (Some (wk_data p)) u") auto
      from "1.IH"(2) [OF True Cons cb [symmetric] refl refl] True Cons cb
      show ?thesis
        by (subst start_containers.simps) (simp add: new_frames_step)
    qed
  qed
qed

lemma start_containers_log:
  "snd (snd (start_containers (log_obj_start cs) tokens i st (u, l))) =
     l @ open_events (new_frames tokens i) (parent_prefix (map frame_id st))"
proof (induction "log_obj_start cs" tokens i st "(u, l)" arbitrary: u l
       rule: start_containers.induct)
  case (1 tokens i st)
  show ?case
  proof (cases "i < length tokens - 1")
    case False
    then show ?thesis
      by (subst start_containers.simps) (simp add: new_frames_done)
  next
    case True
    show ?thesis
    proof (cases st)
      case Nil
      obtain r d pd u' where cb:
        "cs (Some (tokens ! i)) (Some (vp_walker_name_combine_prefix tokens i))
            (Some None) None None u = (r, d, pd, u')"
        by (cases "cs (Some (tokens ! i)) (Some (vp_walker_name_combine_prefix tokens i))
            (Some None) None None u") auto
      have lg: "log_obj_start cs (Some (tokens ! i)) (Some (vp_walker_name_combine_prefix tokens i))
            (Some None) None None (u, l) =
           (r, d, pd, (u', l @ [ObjStart (Some (tokens ! i))
                                  (Some (vp_walker_name_combine_prefix tokens i)) None]))"
        by (simp add: log_obj_start_def cb)
      from "1.hyps"(1) [OF True Nil lg [symmetric] refl refl] True Nil lg
      show ?thesis
        by (subst start_containers.simps) (simp add: new_frames_step)
    next
      case (Cons p st')
      obtain r d pd u' where cb:
        "cs (Some (tokens ! i)) (Some (vp_walker_name_combine_prefix tokens i))
            (Some None) (Some (wk_prefix p)) (Some (wk_data p)) u = (r, d, pd, u')"
        by (cases "cs (Some (tokens ! i)) (Some (vp_walker_name_combine_prefix tokens i))
            (Some None) (Some (wk_prefix p)) (Some (wk_data p)) u") auto
      have lg: "log_obj_start cs (Some (tokens ! i)) (Some (vp_walker_name_combine_prefix tokens i))
            (Some None) (Some (wk_prefix p)) (Some (wk_data p)) (u, l) =
           (r, d, pd, (u', l @ [ObjStart (Some (tokens ! i))
                                  (Some (vp_walker_name_combine_prefix tokens i))
                                  (Some (wk_prefix p))]))"
        by (simp add: log_obj_start_def cb)
      from "1.hyps"(2) [OF True Cons lg [symmetric] refl refl] True Cons lg
      show ?thesis
        by (subst start_containers.simps) (simp add: new_frames_step frame_id_def [of p])
    qed
  qed
qed

lemma skip_sdata_enterprise_id_le:
  "pos < length name \<Longrightarrow> vp_walker_skip_sdata_enterprise_id name pos \<le> length name"
proof (induction name pos rule: vp_walker_skip_sdata_enterprise_id.induct)
  case (1 name pos)
  let ?p2 = "pos + 1 + strspn (drop (pos + 1) name) ''0123456789''"
  have le: "?p2 \<le> length name"
    using "1.prems" length_takeWhile_le [of "\<lambda>c. c \<in> set ''0123456789''" "drop (pos + 1) name"]
    by (simp add: strspn_def)
  show ?case
  proof (cases "c_at name ?p2 = CHR ''.'' \<and> isdigit (c_at name (?p2 + 1))")
    case True
    then have "?p2 < length name"
      by (auto simp: c_at_def split: if_splits)
    with "1.IH" [OF True] True show ?thesis
      by (subst vp_walker_skip_sdata_enterprise_id.simps) simp
  next
    case False
    with le show ?thesis
      by (subst vp_walker_skip_sdata_enterprise_id.simps) auto
  qed
qed

lemma split_scan_le:
  assumes "pos \<le> length name"
  shows "split_scan name pos \<le> length name"
proof -
  let ?p1 = "pos + strcspn (drop pos name) ''@.''"
  have le: "?p1 \<le> length name"
    using assms length_takeWhile_le [of "\<lambda>c. c \<notin> set ''@.''" "drop pos name"]
    by (simp add: strcspn_def)
  show ?thesis
  proof (cases "c_at name ?p1 = CHR ''@''")
    case True
    then have "?p1 < length name"
      by (auto simp: c_at_def split: if_splits)
    from skip_sdata_enterprise_id_le [OF this] True show ?thesis
      by (simp add: split_scan_def Let_def)
  next
    case False
    with le show ?thesis by (simp add: split_scan_def Let_def)
  qed
qed

lemma split_loop_not_empty:
  "pos \<le> length name \<Longrightarrow> split_loop name pos array \<noteq> []"
proof (induction name pos array rule: split_loop.induct)
  case (1 name pos array)
  note le = split_scan_le [OF "1.prems"]
  show ?case
  proof (cases "c_at name (split_scan name pos) = CHR ''.'' \<or> split_scan name pos = length name")
    case True
    show ?thesis
    proof (cases "split_scan name pos + 1 < length name")
      case lt: True
      with "1.IH"(1) [OF True lt] True show ?thesis
        by (subst split_loop.simps) simp
    next
      case False
      with True show ?thesis
        by (subst split_loop.simps) simp
    qed
  next
    case False
    with le have lt: "split_scan name pos < length name" by simp
    with "1.IH"(2) [OF False lt] False show ?thesis
      by (subst split_loop.simps) simp
  qed
qed

lemma vp_walker_split_name_to_tokens_not_NULL:
  "vp_walker_split_name_to_tokens name = Some (split_loop name 0 [])"
  using split_loop_not_empty [of 0 name "[]"]
  by (simp add: vp_walker_split_name_to_tokens_def Let_def)

lemma unwind_until_logging:
  assumes lg: "logging cs cv ce state"
  shows "logging cs cv ce (vp_walker_stack_unwind_containers_until state name) \<and>
         wshape (vp_walker_stack_unwind_containers_until state name) =
           dropWhile (\<lambda>f. \<not> id_matches name f) (wshape state) \<and>
         wlog (vp_walker_stack_unwind_containers_until state name) =
           wlog state @
           close_events (takeWhile (\<lambda>f. \<not> id_matches name f) (wshape state))
             (dropWhile (\<lambda>f. \<not> id_matches name f) (wshape state))"
proof -
  obtain u l where ul: "user_data state = (u, l)" by (cases "user_data state")
  obtain st' u' l' where r:
    "unwind_containers (log_obj_end ce) name (stack state) (u, l) = (st', (u', l'))"
    by (cases "unwind_containers (log_obj_end ce) name (stack state) (u, l)") auto
  from unwind_containers_shape [of "log_obj_end ce" name "stack state" "(u, l)"] r
  have sh: "map frame_id st' = dropWhile (\<lambda>f. \<not> id_matches name f) (map frame_id (stack state))"
    by simp
  from unwind_containers_log [of ce name "stack state" u l] r
  have lo: "l' = l @ close_events (takeWhile (\<lambda>f. \<not> id_matches name f) (map frame_id (stack state)))
             (dropWhile (\<lambda>f. \<not> id_matches name f) (map frame_id (stack state)))"
    by simp
  from lg have "obj_end state = log_obj_end ce" by (simp add: logging_def)
  then have "vp_walker_stack_unwind_containers_until state name =
               state\<lparr>stack := st', user_data := (u', l')\<rparr>"
    by (simp add: vp_walker_stack_unwind_containers_until_def ul r)
  with lg sh lo ul show ?thesis
    by (simp add: logging_def wshape_def wlog_def)
qed

lemma start_containers_for_name_logging:
  assumes lg: "logging cs cv ce state"
  shows "fst (vp_walker_start_containers_for_name state name) = walker_key name \<and>
         logging cs cv ce (snd (vp_walker_start_containers_for_name state name)) \<and>
         wshape (snd (vp_walker_start_containers_for_name state name)) =
           rev (new_frames (split_loop name 0 []) (length (wshape state))) @ wshape state \<and>
         wlog (snd (vp_walker_start_containers_for_name state name)) =
           wlog state @
           open_events (new_frames (split_loop name 0 []) (length (wshape state)))
             (parent_prefix (wshape state))"
proof -
  let ?tokens = "split_loop name 0 []"
  obtain u l where ul: "user_data state = (u, l)" by (cases "user_data state")
  obtain st' u' l' where r:
    "start_containers (log_obj_start cs) ?tokens (length (stack state)) (stack state) (u, l) =
       (st', (u', l'))"
    by (cases "start_containers (log_obj_start cs) ?tokens (length (stack state)) (stack state) (u, l)")
       auto
  from start_containers_shape [of "log_obj_start cs" ?tokens "length (stack state)" "stack state" "(u, l)"] r
  have sh: "map frame_id st' =
              rev (new_frames ?tokens (length (stack state))) @ map frame_id (stack state)"
    by simp
  from start_containers_log [of cs ?tokens "length (stack state)" "stack state" u l] r
  have lo: "l' = l @ open_events (new_frames ?tokens (length (stack state)))
                       (parent_prefix (map frame_id (stack state)))"
    by simp
  from lg have "obj_start state = log_obj_start cs" by (simp add: logging_def)
  then have "vp_walker_start_containers_for_name state name =
               (walker_key name, state\<lparr>stack := st', user_data := (u', l')\<rparr>)"
    by (simp add: vp_walker_start_containers_for_name_def vp_walker_split_name_to_tokens_not_NULL
          ul r walker_key_def)
  with lg sh lo ul show ?thesis
    by (simp add: logging_def wshape_def wlog_def)
qed

lemma value_pairs_walker_logging:
  assumes lg: "logging cs cv ce state"
    and w: "value_pairs_walker name type val state = (result, state')"
  shows "logging cs cv ce state' \<and>
         wshape state' = walker_shape name (wshape state) \<and>
         wlog state' =
           wlog state @ walker_events name (wshape state) @
           [ProcessValue (walker_key name) (parent_prefix (walker_shape name (wshape state)))
              type val result]"
proof -
  let ?s1 = "vp_walker_stack_unwind_containers_until state (Some name)"
  note u = unwind_until_logging [OF lg, of "Some name"]
  from u have lg1: "logging cs cv ce ?s1" by simp
  obtain k s2 where key: "vp_walker_start_containers_for_name ?s1 name = (k, s2)"
    by (cases "vp_walker_start_containers_for_name ?s1 name")
  note s = start_containers_for_name_logging [OF lg1, of name, unfolded key fst_conv snd_conv]
  from s have k: "k = walker_key name" by simp
  from s have lg2: "logging cs cv ce s2" by simp
  from u s have sh2: "wshape s2 = walker_shape name (wshape state)"
    by (simp add: walker_shape_def walker_kept_def)
  from u s have lo2: "wlog s2 = wlog state @ walker_events name (wshape state)"
    by (simp add: walker_events_def walker_kept_def)
  obtain u2 l2 where ul: "user_data s2 = (u2, l2)" by (cases "user_data s2")
  from lg2 have pv: "process_value s2 = log_process_value cv" by (simp add: logging_def)
  show ?thesis
  proof (cases "stack s2")
    case Nil
    obtain r d u3 where cb: "cv (k) None type val None u2 = (r, d, u3)"
      by (cases "cv (k) None type val None u2") auto
    from w have "(result, state') =
       (r, s2\<lparr>user_data := (u3, l2 @ [ProcessValue (k) None type val r])\<rparr>)"
      by (auto simp: value_pairs_walker_def key Nil pv log_process_value_def ul cb)
    moreover from Nil sh2 have "parent_prefix (walker_shape name (wshape state)) = None"
      by (simp add: wshape_def)
    ultimately show ?thesis
      using lg2 sh2 lo2 ul k by (simp add: logging_def wshape_def wlog_def)
  next
    case (Cons top st)
    obtain r d u3 where cb:
      "cv (k) (Some (wk_prefix top)) type val (Some (wk_data top)) u2 = (r, d, u3)"
      by (cases "cv (k) (Some (wk_prefix top)) type val (Some (wk_data top)) u2") auto
    from w have "(result, state') =
       (r, s2\<lparr>stack := top\<lparr>wk_data := d\<rparr> # st,
               user_data := (u3, l2 @ [ProcessValue (k) (Some (wk_prefix top)) type val r])\<rparr>)"
      by (auto simp: value_pairs_walker_def key Cons pv log_process_value_def ul cb)
    moreover have "parent_prefix (walker_shape name (wshape state)) = Some (wk_prefix top)"
      unfolding sh2 [symmetric] by (simp add: wshape_def Cons frame_id_def [of top])
    moreover from Cons sh2 have "map frame_id (top\<lparr>wk_data := d\<rparr> # st) = walker_shape name (wshape state)"
      by (simp add: wshape_def)
    ultimately show ?thesis
      using lg2 lo2 ul k by (simp add: logging_def wshape_def wlog_def)
  qed
qed

lemma g_tree_foreach_nodes_rule:
  assumes "I s"
    and step: "\<And>k v s stop s'. (k, v) \<in> set ns \<Longrightarrow> I s \<Longrightarrow> f k v s = (stop, s') \<Longrightarrow>
                 (if stop then Q s' else I s')"
    and fin: "\<And>s. I s \<Longrightarrow> Q s"
  shows "Q (g_tree_foreach_nodes f ns s)"
  using assms(1,2)
proof (induction ns arbitrary: s)
  case Nil
  then show ?case by (simp add: fin)
next
  case (Cons a ns)
  obtain k v where a: "a = (k, v)" by (cases a)
  obtain stop s' where r: "f k v s = (stop, s')" by (cases "f k v s")
  from Cons.prems(2) [of k v s stop s'] Cons.prems(1) r
  have st: "if stop then Q s' else I s'" by (simp add: a)
  show ?case
  proof (cases stop)
    case True
    with st r show ?thesis by (simp add: a)
  next
    case False
    with st have "I s'" by simp
    then have "Q (g_tree_foreach_nodes f ns s')"
    proof (rule Cons.IH)
      fix k' v' t stop' t'
      assume "(k', v') \<in> set ns" "I t" "f k' v' t = (stop', t')"
      then show "if stop' then Q t' else I t'"
        using Cons.prems(2) [of k' v' t stop' t'] by simp
    qed
    with False r show ?thesis by (simp add: a)
  qed
qed

lemma top_prefix_cstack:
  "top_prefix base = None \<Longrightarrow> top_prefix (cstack fs @ base) = parent_prefix fs"
  by (cases fs) (auto simp: cstack_def)

lemma check_close_events:
  assumes b: "top_prefix base = None"
  shows "foldl check_step (Some (cstack (popped @ kept) @ base)) (close_events popped kept) =
           Some (cstack kept @ base)"
proof (induction popped)
  case Nil
  show ?case by simp
next
  case (Cons f popped)
  obtain k p n where f: "f = (k, p, n)" by (cases f)
  have "check_step (Some (cstack ((k, p, n) # popped @ kept) @ base))
          (ObjEnd (Some k) (Some p) (parent_prefix (popped @ kept))) =
        Some (cstack (popped @ kept) @ base)"
    using top_prefix_cstack [OF b, of "popped @ kept"] by (simp add: cstack_def)
  with Cons.IH show ?case by (simp add: f)
qed

lemma check_open_events:
  assumes b: "top_prefix base = None"
  shows "foldl check_step (Some (cstack st @ base)) (open_events nf (parent_prefix st)) =
           Some (cstack (rev nf @ st) @ base)"
proof (induction nf arbitrary: st)
  case Nil
  show ?case by simp
next
  case (Cons f nf)
  obtain k p n where f: "f = (k, p, n)" by (cases f)
  have "check_step (Some (cstack st @ base)) (ObjStart (Some k) (Some p) (parent_prefix st)) =
        Some (cstack ((k, p, n) # st) @ base)"
    using top_prefix_cstack [OF b, of st] by (simp add: cstack_def)
  with Cons.IH [of "(k, p, n) # st"] show ?case by (simp add: f)
qed

lemma check_walker_events:
  assumes b: "top_prefix base = None"
  shows "foldl check_step (Some (cstack sh @ base))
           (walker_events name sh @
            [ProcessValue key (parent_prefix (walker_shape name sh)) type val result]) =
         Some (cstack (walker_shape name sh) @ base)"
proof -
  let ?popped = "takeWhile (\<lambda>f. \<not> id_matches (Some name) f) sh"
  have sh: "sh = ?popped @ walker_kept name sh"
    by (simp add: walker_kept_def)
  have "foldl check_step (Some (cstack sh @ base)) (close_events ?popped (walker_kept name sh)) =
          Some (cstack (walker_kept name sh) @ base)"
    using check_close_events [OF b, of ?popped "walker_kept name sh"] sh by simp
  then have "foldl check_step (Some (cstack sh @ base)) (walker_events name sh) =
          Some (cstack (walker_shape name sh) @ base)"
    by (simp add: walker_events_def walker_shape_def check_open_events [OF b])
  then show ?thesis
    using top_prefix_cstack [OF b, of "walker_shape name sh"] by simp
qed

text \<open>
  The traversal of the walker keeps every property of the log, the shape of the stack
  and the result flag that one call of the walker keeps.
\<close>

lemma walker_foreach_rule:
  fixes cs :: "('d, 'u) VPWalkCallbackFunc"
  assumes lg: "logging cs cv ce state"
    and init: "P (wlog state) (wshape state) True"
    and step: "\<And>k v l sh result. (k, v) \<in> set ns \<Longrightarrow> P l sh True \<Longrightarrow>
                 P (l @ walker_events k sh @
                      [ProcessValue (walker_key k) (parent_prefix (walker_shape k sh))
                         (sb_type_hint v) (c_str (sb_string v)) result])
                   (walker_shape k sh) (\<not> result)"
  shows "walk_inv cs cv ce P
           (g_tree_foreach_nodes (vp_foreach_helper value_pairs_walker) ns (state, True))"
proof (rule g_tree_foreach_nodes_rule [where I = "\<lambda>s. walk_inv cs cv ce P s \<and> snd s"])
  show "walk_inv cs cv ce P (state, True) \<and> snd (state, True)"
    using lg init by (simp add: walk_inv_def)
next
  fix k v and s :: "('d, 'u \<times> vp_event list) vp_walk_state_t \<times> bool" and stop s'
  assume m: "(k, v) \<in> set ns" and i: "walk_inv cs cv ce P s \<and> snd s"
    and f: "vp_foreach_helper value_pairs_walker k v s = (stop, s')"
  obtain ws where s: "s = (ws, True)" using i by (cases s) auto
  obtain result ws' where w: "value_pairs_walker k (sb_type_hint v) (c_str (sb_string v)) ws = (result, ws')"
    by (cases "value_pairs_walker k (sb_type_hint v) (c_str (sb_string v)) ws")
  from f have r: "stop = result" "s' = (ws', \<not> result)"
    by (auto simp: vp_foreach_helper_def s w)
  from i have lgw: "logging cs cv ce ws" and p: "P (wlog ws) (wshape ws) True"
    by (simp_all add: walk_inv_def s)
  note wl = value_pairs_walker_logging [OF lgw w]
  from step [OF m p, of result] wl have "walk_inv cs cv ce P s'"
    by (simp add: walk_inv_def r)
  with r show "if stop then walk_inv cs cv ce P s' else walk_inv cs cv ce P s' \<and> snd s'"
    by (cases result) simp_all
qed simp

lemma takeWhile_all [simp]: "takeWhile (\<lambda>f. True) xs = xs"
  by (induction xs) simp_all

lemma dropWhile_all [simp]: "dropWhile (\<lambda>f. True) xs = []"
  by (induction xs) simp_all

lemma walk_trace_rule:
  fixes cs :: "('d, 'u) VPWalkCallbackFunc"
  assumes init: "P [ObjStart None None None] [] True"
    and step: "\<And>k v l sh result.
                 (k, v) \<in> set (nodes (value_pairs_scope_set E vp vp_walk_cmp ev)) \<Longrightarrow>
                 P l sh True \<Longrightarrow>
                 P (l @ walker_events k sh @
                      [ProcessValue (walker_key k) (parent_prefix (walker_shape k sh))
                         (sb_type_hint v) (c_str (sb_string v)) result])
                   (walker_shape k sh) (\<not> result)"
  shows "\<exists>l sh. P l sh (walk_result E vp cs cv ce ev u) \<and>
           walk_trace E vp cs cv ce ev u = l @ close_events sh [] @ [ObjEnd None None None]"
proof -
  obtain r1 d1 pd1 u1 where cb1: "cs None None None None None u = (r1, d1, pd1, u1)"
    by (cases "cs None None None None None u") auto
  let ?state0 = "\<lparr>obj_start = log_obj_start cs, obj_end = log_obj_end ce,
                   process_value = log_process_value cv,
                   user_data = (u1, [ObjStart None None None]), stack = []\<rparr>"
  let ?ns = "nodes (value_pairs_scope_set E vp vp_walk_cmp ev)"
  obtain state r where fe:
    "g_tree_foreach_nodes (vp_foreach_helper value_pairs_walker) ?ns (?state0, True) = (state, r)"
    by (cases "g_tree_foreach_nodes (vp_foreach_helper value_pairs_walker) ?ns (?state0, True)")
  have lg0: "logging cs cv ce ?state0" by (simp add: logging_def)
  have "walk_inv cs cv ce P
          (g_tree_foreach_nodes (vp_foreach_helper value_pairs_walker) ?ns (?state0, True))"
    by (rule walker_foreach_rule [OF lg0]) (simp_all add: wlog_def wshape_def init step)
  then have lg: "logging cs cv ce state" and p: "P (wlog state) (wshape state) r"
    by (simp_all add: fe walk_inv_def)
  note un = unwind_until_logging [OF lg, of None]
  let ?state2 = "vp_walker_stack_unwind_all_containers state"
  from un have lo2: "wlog ?state2 = wlog state @ close_events (wshape state) []"
    by (simp add: vp_walker_stack_unwind_all_containers_def)
  obtain u2 l2 where ul2: "user_data ?state2 = (u2, l2)" by (cases "user_data ?state2")
  with lo2 have l2: "l2 = wlog state @ close_events (wshape state) []"
    by (simp add: wlog_def)
  obtain r3 d3 pd3 u3 where cb3: "ce None None None None None u2 = (r3, d3, pd3, u3)"
    by (cases "ce None None None None None u2") auto
  have "value_pairs_walk E vp (log_obj_start cs) (log_process_value cv) (log_obj_end ce) ev (u, []) =
          (r, (u3, l2 @ [ObjEnd None None None]))"
    by (simp add: value_pairs_walk_def log_obj_start_def cb1 value_pairs_foreach_sorted_def
          g_tree_foreach_def fe ul2 log_obj_end_def cb3)
  then have "walk_result E vp cs cv ce ev u = r"
    and "walk_trace E vp cs cv ce ev u = wlog state @ close_events (wshape state) [] @ [ObjEnd None None None]"
    by (simp_all add: walk_result_def walk_trace_def l2)
  with p show ?thesis by blast
qed

lemma foldl_check_step_None: "foldl check_step None es = None"
  by (induction es) simp_all

lemma check_step_counts:
  "foldl check_step (Some st0) es = Some st \<Longrightarrow>
   obj_starts es + open_frames st0 = obj_ends es + open_frames st"
proof (induction es arbitrary: st0)
  case Nil
  then show ?case by simp
next
  case (Cons e es)
  show ?case
  proof (cases "check_step (Some st0) e")
    case None
    with Cons.prems show ?thesis by (simp add: foldl_check_step_None)
  next
    case (Some st1)
    with Cons.prems have "foldl check_step (Some st1) es = Some st" by simp
    from Cons.IH [OF this] have ih: "obj_starts es + open_frames st1 = obj_ends es + open_frames st" .
    show ?thesis
    proof (cases e)
      case (ObjStart k p pp)
      with Some have "st1 = (k, p) # st0" "pp = top_prefix st0"
        by (auto split: if_splits)
      with ih ObjStart show ?thesis by simp
    next
      case (ObjEnd k p pp)
      with Some obtain st0' where "st0 = (k, p) # st0'" "st1 = st0'" "pp = top_prefix st0'"
        by (cases st0) (auto split: if_splits)
      with ih ObjEnd show ?thesis by simp
    next
      case (ProcessValue k pp t v f)
      with Some have "st1 = st0" by (auto split: if_splits)
      with ih ProcessValue show ?thesis by simp
    qed
  qed
qed

lemma check_events_counts: "check_events es = Some [] \<Longrightarrow> obj_starts es = obj_ends es"
  using check_step_counts [of "[]" es "[]"] by (simp add: check_events_def)

lemma walk_trace_balanced:
  "check_events (walk_trace E vp cs cv ce ev u) = Some [] \<and>
   (\<exists>mid. walk_trace E vp cs cv ce ev u =
            ObjStart None None None # mid @ [ObjEnd None None None])"
proof -
  let ?P = "\<lambda>l sh (r::bool). check_events l = Some (cstack sh @ [(None, None)]) \<and>
               (\<exists>m. l = ObjStart None None None # m)"
  have b: "top_prefix [(None, None)] = None" by simp
  have "\<exists>l sh. ?P l sh (walk_result E vp cs cv ce ev u) \<and>
           walk_trace E vp cs cv ce ev u = l @ close_events sh [] @ [ObjEnd None None None]"
  proof (rule walk_trace_rule)
    show "?P [ObjStart None None None] [] True"
      by (simp add: check_events_def cstack_def)
  next
    fix k v l sh result
    assume "?P l sh True"
    then obtain m where c: "check_events l = Some (cstack sh @ [(None, None)])"
      and t: "l = ObjStart None None None # m" by blast
    from c check_walker_events [OF b, of sh k "walker_key k" "sb_type_hint v" "c_str (sb_string v)" result]
    have "check_events (l @ walker_events k sh @
                      [ProcessValue (walker_key k) (parent_prefix (walker_shape k sh))
                         (sb_type_hint v) (c_str (sb_string v)) result]) =
          Some (cstack (walker_shape k sh) @ [(None, None)])"
      by (simp add: check_events_def)
    with t show "?P (l @ walker_events k sh @
                      [ProcessValue (walker_key k) (parent_prefix (walker_shape k sh))
                         (sb_type_hint v) (c_str (sb_string v)) result])
                   (walker_shape k sh) (\<not> result)"
      by simp
  qed
  then obtain l sh m where c: "check_events l = Some (cstack sh @ [(None, None)])"
    and t: "l = ObjStart None None None # m"
    and tr: "walk_trace E vp cs cv ce ev u = l @ close_events sh [] @ [ObjEnd None None None]"
    by blast
  from c check_close_events [OF b, of sh "[]"]
  have "check_events (l @ close_events sh []) = Some [(None, None)]"
    by (simp add: check_events_def cstack_def)
  then have "check_events (l @ close_events sh [] @ [ObjEnd None None None]) = Some []"
    by (simp add: check_events_def)
  with t tr show ?thesis by simp
qed

section \<open>Properties of the traversals\<close>

lemma call_failed_simp [simp]: "call_failed (k, t, v, f) = f"
  by (simp add: call_failed_def)

lemma call_value_simp [simp]: "call_value (k, t, v, f) = v"
  by (simp add: call_value_def)

lemma dropWhile_no_failure:
  "\<not> list_ex P xs \<Longrightarrow> dropWhile (\<lambda>x. \<not> P x) (xs @ ys) = dropWhile (\<lambda>x. \<not> P x) ys"
  by (induction xs) simp_all

lemma after_failure_cases:
  assumes "if r then \<not> list_ex P l
           else l \<noteq> [] \<and> P (last l) \<and> \<not> list_ex P (butlast l)"
  shows "drop 1 (dropWhile (\<lambda>x. \<not> P x) (l @ ys)) =
           (if r then drop 1 (dropWhile (\<lambda>x. \<not> P x) ys) else ys) \<and>
         (list_ex P l = (\<not> r))"
proof (cases r)
  case True
  with assms show ?thesis by (simp add: dropWhile_no_failure)
next
  case False
  with assms have ne: "l \<noteq> []" and f: "P (last l)" and nf: "\<not> list_ex P (butlast l)"
    by simp_all
  from ne have l: "l = butlast l @ [last l]" by simp
  have "dropWhile (\<lambda>x. \<not> P x) (l @ ys) = last l # ys"
    by (subst l) (simp add: dropWhile_no_failure [OF nf] f)
  moreover have "list_ex P l"
    by (subst l) (simp add: f del: append_butlast_last_id)
  ultimately show ?thesis using False by simp
qed

lemma close_events_obj_end: "list_all is_obj_end (close_events fs rest)"
  by (induction fs rest rule: close_events.induct) simp_all

lemma close_events_no_failure: "\<not> list_ex is_failure (close_events fs rest)"
  by (induction fs rest rule: close_events.induct) simp_all

lemma open_events_no_failure: "\<not> list_ex is_failure (open_events fs pp)"
  by (induction fs pp rule: open_events.induct) simp_all

lemma walker_events_no_failure: "\<not> list_ex is_failure (walker_events name sh)"
  by (simp add: walker_events_def close_events_no_failure open_events_no_failure)

lemma close_events_delivers: "list_all (event_delivers t) (close_events fs rest)"
  by (induction fs rest rule: close_events.induct) simp_all

lemma open_events_delivers: "list_all (event_delivers t) (open_events fs pp)"
  by (induction fs pp rule: open_events.induct) simp_all

lemma walker_events_delivers: "list_all (event_delivers t) (walker_events name sh)"
  by (simp add: walker_events_def close_events_delivers open_events_delivers)

lemma c_str_empty: "bytes \<noteq> [] \<Longrightarrow> (c_str bytes = []) = (take 1 bytes = [CHR 0x00])"
  by (cases bytes) (auto simp: c_str_def)

lemma node_delivered_scope_set:
  assumes "(k, v) \<in> set (nodes (value_pairs_scope_set E vp compare_func ev))"
  shows "node_delivered (k, v) (sb_type_hint v) (c_str (sb_string v))"
proof -
  from assms values_nonempty_scope_set [of E vp compare_func ev]
  have "sb_string v \<noteq> []"
    by (auto simp: values_nonempty_def list_all_iff)
  then show ?thesis
    by (simp add: node_delivered_def c_str_empty)
qed

lemma walk_trace_after_failure:
  "list_all is_obj_end (drop 1 (dropWhile (\<lambda>e. \<not> is_failure e) (walk_trace E vp cs cv ce ev u))) \<and>
   walk_result E vp cs cv ce ev u = (\<not> list_ex is_failure (walk_trace E vp cs cv ce ev u))"
proof -
  let ?P = "\<lambda>l (sh :: frame_id list) r.
              if r then \<not> list_ex is_failure l
              else l \<noteq> [] \<and> is_failure (last l) \<and> \<not> list_ex is_failure (butlast l)"
  have "\<exists>l sh. ?P l sh (walk_result E vp cs cv ce ev u) \<and>
           walk_trace E vp cs cv ce ev u = l @ close_events sh [] @ [ObjEnd None None None]"
  proof (rule walk_trace_rule)
    show "?P [ObjStart None None None] [] True" by simp
  next
    fix k v l sh result
    assume "?P l sh True"
    then have "\<not> list_ex is_failure l" by simp
    then show "?P (l @ walker_events k sh @
                      [ProcessValue (walker_key k) (parent_prefix (walker_shape k sh))
                         (sb_type_hint v) (c_str (sb_string v)) result])
                   (walker_shape k sh) (\<not> result)"
      using walker_events_no_failure [of k sh]
      by (simp add: butlast_append)
  qed
  then obtain l sh where p: "?P l sh (walk_result E vp cs cv ce ev u)"
    and tr: "walk_trace E vp cs cv ce ev u = l @ close_events sh [] @ [ObjEnd None None None]"
    by blast
  let ?ys = "close_events sh [] @ [ObjEnd None None None]"
  have ys: "list_all is_obj_end ?ys" "\<not> list_ex is_failure ?ys"
    by (simp_all add: close_events_obj_end close_events_no_failure)
  then have d: "dropWhile (\<lambda>e. \<not> is_failure e) ?ys = []"
    by (simp add: list_ex_iff)
  note c = after_failure_cases [of "walk_result E vp cs cv ce ev u" is_failure l ?ys, OF p]
  from c d ys(1) have 1: "list_all is_obj_end (drop 1 (dropWhile (\<lambda>e. \<not> is_failure e) (l @ ?ys)))"
    by (cases "walk_result E vp cs cv ce ev u") simp_all
  from c ys(2) have 2: "walk_result E vp cs cv ce ev u = (\<not> list_ex is_failure (l @ ?ys))"
    by auto
  from 1 2 show ?thesis by (simp add: tr)
qed

lemma walk_trace_values:
  "list_all (event_delivers (value_pairs_scope_set E vp vp_walk_cmp ev))
     (walk_trace E vp cs cv ce ev u)"
proof -
  let ?t = "value_pairs_scope_set E vp vp_walk_cmp ev"
  let ?P = "\<lambda>l (sh :: frame_id list) (r :: bool). list_all (event_delivers ?t) l"
  have "\<exists>l sh. ?P l sh (walk_result E vp cs cv ce ev u) \<and>
           walk_trace E vp cs cv ce ev u = l @ close_events sh [] @ [ObjEnd None None None]"
  proof (rule walk_trace_rule)
    show "?P [ObjStart None None None] [] True" by simp
  next
    fix k v l sh result
    assume m: "(k, v) \<in> set (nodes ?t)" and l: "?P l sh True"
    from m node_delivered_scope_set [OF m]
    have "list_ex (\<lambda>n. node_delivered n (sb_type_hint v) (c_str (sb_string v))) (nodes ?t)"
      unfolding list_ex_iff by blast
    with l show "?P (l @ walker_events k sh @
                      [ProcessValue (walker_key k) (parent_prefix (walker_shape k sh))
                         (sb_type_hint v) (c_str (sb_string v)) result])
                   (walker_shape k sh) (\<not> result)"
      by (simp add: walker_events_delivers)
  qed
  then show ?thesis
    by (auto simp: close_events_delivers)
qed

lemma foreach_calls_rule:
  fixes u :: 'u
  assumes init: "P [] True"
    and step: "\<And>k v l failed.
                 (k, v) \<in> set (nodes (value_pairs_scope_set E vp compare_func ev)) \<Longrightarrow>
                 P l True \<Longrightarrow>
                 P (l @ [(k, sb_type_hint v, c_str (sb_string v), failed)]) (\<not> failed)"
  shows "P (foreach_calls E vp func compare_func ev u) (foreach_result E vp func compare_func ev u)"
proof -
  let ?Q = "\<lambda>s :: ('u \<times> (string \<times> TypeHint \<times> string \<times> bool) list) \<times> bool. P (snd (fst s)) (snd s)"
  let ?ns = "nodes (value_pairs_scope_set E vp compare_func ev)"
  have "?Q (g_tree_foreach_nodes (vp_foreach_helper (log_foreach func)) ?ns ((u, []), True))"
  proof (rule g_tree_foreach_nodes_rule [where I = "\<lambda>s. ?Q s \<and> snd s"])
    show "?Q ((u, []), True) \<and> snd ((u, []), True)" by (simp add: init)
  next
    fix k v and s :: "('u \<times> (string \<times> TypeHint \<times> string \<times> bool) list) \<times> bool" and stop s'
    assume m: "(k, v) \<in> set ?ns" and i: "?Q s \<and> snd s"
      and f: "vp_foreach_helper (log_foreach func) k v s = (stop, s')"
    obtain u1 l where s: "s = ((u1, l), True)" using i by (cases s) auto
    obtain failed u2 where c: "func k (sb_type_hint v) (c_str (sb_string v)) u1 = (failed, u2)"
      by (cases "func k (sb_type_hint v) (c_str (sb_string v)) u1")
    from f have r: "stop = failed"
      "s' = ((u2, l @ [(k, sb_type_hint v, c_str (sb_string v), failed)]), \<not> failed)"
      by (auto simp: vp_foreach_helper_def log_foreach_def s c)
    from i have "P l True" by (simp add: s)
    from step [OF m this, of failed] r
    show "if stop then ?Q s' else ?Q s' \<and> snd s'"
      by (cases failed) simp_all
  qed blast
  then show ?thesis
    by (auto simp: foreach_calls_def foreach_result_def value_pairs_foreach_sorted_def
          g_tree_foreach_def split: prod.splits)
qed

lemma foreach_calls_after_failure:
  "drop 1 (dropWhile (\<lambda>c. \<not> call_failed c) (foreach_calls E vp func compare_func ev u)) = [] \<and>
   foreach_result E vp func compare_func ev u =
     (\<not> list_ex call_failed (foreach_calls E vp func compare_func ev u))"
proof -
  let ?P = "\<lambda>l r. if r then \<not> list_ex call_failed l
              else l \<noteq> [] \<and> call_failed (last l) \<and> \<not> list_ex call_failed (butlast l)"
  have p: "?P (foreach_calls E vp func compare_func ev u) (foreach_result E vp func compare_func ev u)"
    by (rule foreach_calls_rule) (simp_all add: butlast_append)
  from after_failure_cases [of "foreach_result E vp func compare_func ev u" call_failed
         "foreach_calls E vp func compare_func ev u" "[]", OF p]
  show ?thesis by auto
qed

lemma foreach_calls_values:
  "list_all (call_delivers (value_pairs_scope_set E vp compare_func ev))
     (foreach_calls E vp func compare_func ev u)"
proof -
  let ?t = "value_pairs_scope_set E vp compare_func ev"
  let ?P = "\<lambda>l (r :: bool). list_all (call_delivers ?t) l"
  show ?thesis
  proof (rule foreach_calls_rule [where P = ?P])
    show "?P [] True" by simp
  next
    fix k v l failed
    assume m: "(k, v) \<in> set (nodes ?t)" and l: "?P l True"
    from m node_delivered_scope_set [OF m]
    have "call_delivers ?t (k, sb_type_hint v, c_str (sb_string v), failed)"
      unfolding call_delivers_def list_ex_iff by force
    with l show "?P (l @ [(k, sb_type_hint v, c_str (sb_string v), failed)]) (\<not> failed)"
      by simp
  qed
qed

section \<open>Recording does not change a traversal\<close>

lemma unwind_containers_recorded:
  "fst (unwind_containers (log_obj_end ce) name st (u, l)) = fst (unwind_containers ce name st u) \<and>
   fst (snd (unwind_containers (log_obj_end ce) name st (u, l))) =
     snd (unwind_containers ce name st u)"
proof (induction ce name st u arbitrary: l rule: unwind_containers.induct)
  case (1 oe name u)
  show ?case by simp
next
  case (2 oe name t u)
  show ?case
    by (cases "oe (Some (wk_key t)) (Some (wk_prefix t)) (Some (wk_data t)) None None u")
       (simp add: log_obj_end_def)
next
  case (3 oe name t p st u)
  show ?case
  proof (cases "unwind_matches name t")
    case True
    then show ?thesis by simp
  next
    case False
    obtain r d pd u' where cb: "oe (Some (wk_key t)) (Some (wk_prefix t)) (Some (wk_data t))
                  (Some (wk_prefix p)) (Some (wk_data p)) u = (r, d, pd, u')"
      by (cases "oe (Some (wk_key t)) (Some (wk_prefix t)) (Some (wk_data t))
                  (Some (wk_prefix p)) (Some (wk_data p)) u") auto
    from "3.IH" [OF False cb [symmetric] refl refl] False cb
    show ?thesis
      by (simp add: log_obj_end_def)
  qed
qed

lemma start_containers_recorded:
  "fst (start_containers (log_obj_start cs) tokens i st (u, l)) =
     fst (start_containers cs tokens i st u) \<and>
   fst (snd (start_containers (log_obj_start cs) tokens i st (u, l))) =
     snd (start_containers cs tokens i st u)"
proof (induction cs tokens i st u arbitrary: l rule: start_containers.induct)
  case (1 os tokens i st u)
  show ?case
  proof (cases "i < length tokens - 1")
    case False
    then show ?thesis
      by (simp add: start_containers.simps [of _ tokens i])
  next
    case True
    show ?thesis
    proof (cases st)
      case Nil
      obtain r d pd u' where cb:
        "os (Some (tokens ! i)) (Some (vp_walker_name_combine_prefix tokens i))
            (Some None) None None u = (r, d, pd, u')"
        by (cases "os (Some (tokens ! i)) (Some (vp_walker_name_combine_prefix tokens i))
            (Some None) None None u") auto
      from "1.IH"(1) [OF True Nil cb [symmetric] refl refl] True Nil cb
      show ?thesis
        by (simp add: start_containers.simps [of _ tokens i] log_obj_start_def)
    next
      case (Cons p st')
      obtain r d pd u' where cb:
        "os (Some (tokens ! i)) (Some (vp_walker_name_combine_prefix tokens i))
            (Some None) (Some (wk_prefix p)) (Some (wk_data p)) u = (r, d, pd, u')"
        by (cases "os (Some (tokens ! i)) (Some (vp_walker_name_combine_prefix tokens i))
            (Some None) (Some (wk_prefix p)) (Some (wk_data p)) u") auto
      from "1.IH"(2) [OF True Cons cb [symmetric] refl refl] True Cons cb
      show ?thesis
        by (simp add: start_containers.simps [of _ tokens i] log_obj_start_def)
    qed
  qed
qed

lemma unwind_until_recorded:
  assumes "records sl s"
  shows "records (vp_walker_stack_unwind_containers_until sl name)
           (vp_walker_stack_unwind_containers_until s name)"
proof -
  obtain u l where ul: "user_data sl = (u, l)" by (cases "user_data sl")
  with assms have u: "user_data s = u" by (simp add: records_def)
  from unwind_containers_recorded [of "obj_end s" name "stack s" u l] assms ul u
  show ?thesis
    by (auto simp: records_def vp_walker_stack_unwind_containers_until_def split: prod.splits)
qed

lemma start_containers_for_name_recorded:
  assumes "records sl s"
  shows "fst (vp_walker_start_containers_for_name sl name) =
           fst (vp_walker_start_containers_for_name s name) \<and>
         records (snd (vp_walker_start_containers_for_name sl name))
           (snd (vp_walker_start_containers_for_name s name))"
proof -
  obtain u l where ul: "user_data sl = (u, l)" by (cases "user_data sl")
  with assms have u: "user_data s = u" by (simp add: records_def)
  from start_containers_recorded
    [of "obj_start s" "split_loop name 0 []" "length (stack s)" "stack s" u l] assms ul u
  show ?thesis
    by (auto simp: records_def vp_walker_start_containers_for_name_def
          vp_walker_split_name_to_tokens_not_NULL split: prod.splits)
qed

lemma value_pairs_walker_recorded:
  assumes "records sl s"
  shows "fst (value_pairs_walker name type val sl) = fst (value_pairs_walker name type val s) \<and>
         records (snd (value_pairs_walker name type val sl)) (snd (value_pairs_walker name type val s))"
proof -
  let ?sl1 = "vp_walker_stack_unwind_containers_until sl (Some name)"
  let ?s1 = "vp_walker_stack_unwind_containers_until s (Some name)"
  have r1: "records ?sl1 ?s1" using assms by (rule unwind_until_recorded)
  obtain k sl2 where kl: "vp_walker_start_containers_for_name ?sl1 name = (k, sl2)"
    by (cases "vp_walker_start_containers_for_name ?sl1 name")
  obtain k' s2 where ks: "vp_walker_start_containers_for_name ?s1 name = (k', s2)"
    by (cases "vp_walker_start_containers_for_name ?s1 name")
  from start_containers_for_name_recorded [OF r1, of name] kl ks
  have k: "k' = k" and r2: "records sl2 s2" by simp_all
  obtain u l where ul: "user_data sl2 = (u, l)" by (cases "user_data sl2")
  with r2 have u: "user_data s2 = u" by (simp add: records_def)
  from r2 have st: "stack sl2 = stack s2"
    and pv: "process_value sl2 = log_process_value (process_value s2)"
    by (simp_all add: records_def)
  show ?thesis
  proof (cases "stack s2")
    case Nil
    with r2 st pv ul u show ?thesis
      by (simp add: value_pairs_walker_def kl ks k log_process_value_def records_def
            split: prod.splits)
  next
    case (Cons top rest)
    with r2 st pv ul u show ?thesis
      by (simp add: value_pairs_walker_def kl ks k log_process_value_def records_def
            split: prod.splits)
  qed
qed

lemma vp_foreach_helper_step:
  "vp_foreach_helper func k v (ud, r) =
     (case func k (sb_type_hint v) (c_str (sb_string v)) ud of
        (failed, ud') \<Rightarrow> (\<not> (r \<and> \<not> failed), (ud', r \<and> \<not> failed)))"
  by (simp add: vp_foreach_helper_def)

lemma walker_foreach_recorded:
  "records sl s \<Longrightarrow>
   records (fst (g_tree_foreach_nodes (vp_foreach_helper value_pairs_walker) ns (sl, r)))
     (fst (g_tree_foreach_nodes (vp_foreach_helper value_pairs_walker) ns (s, r))) \<and>
   snd (g_tree_foreach_nodes (vp_foreach_helper value_pairs_walker) ns (sl, r)) =
     snd (g_tree_foreach_nodes (vp_foreach_helper value_pairs_walker) ns (s, r))"
proof (induction ns arbitrary: sl s r)
  case Nil
  then show ?case by simp
next
  case (Cons a ns)
  obtain k v where a: "a = (k, v)" by (cases a)
  obtain f sl' where wl: "value_pairs_walker k (sb_type_hint v) (c_str (sb_string v)) sl = (f, sl')"
    by (cases "value_pairs_walker k (sb_type_hint v) (c_str (sb_string v)) sl")
  obtain f' s' where ws: "value_pairs_walker k (sb_type_hint v) (c_str (sb_string v)) s = (f', s')"
    by (cases "value_pairs_walker k (sb_type_hint v) (c_str (sb_string v)) s")
  from value_pairs_walker_recorded [OF Cons.prems, of k "sb_type_hint v" "c_str (sb_string v)"] wl ws
  have f: "f' = f" and r': "records sl' s'" by simp_all
  from Cons.IH [OF r', of "r \<and> \<not> f"] r' show ?case
    by (auto simp: a vp_foreach_helper_step wl ws f)
qed

lemma value_pairs_walk_recorded:
  "fst (value_pairs_walk E vp (log_obj_start cs) (log_process_value cv) (log_obj_end ce) ev (u, l)) =
     fst (value_pairs_walk E vp cs cv ce ev u) \<and>
   fst (snd (value_pairs_walk E vp (log_obj_start cs) (log_process_value cv) (log_obj_end ce)
               ev (u, l))) =
     snd (value_pairs_walk E vp cs cv ce ev u)"
proof -
  obtain r1 d1 pd1 u1 where cb1: "cs None None None None None u = (r1, d1, pd1, u1)"
    by (cases "cs None None None None None u") auto
  let ?sl0 = "\<lparr>obj_start = log_obj_start cs, obj_end = log_obj_end ce,
                process_value = log_process_value cv,
                user_data = (u1, l @ [ObjStart None None None]), stack = []\<rparr>"
  let ?s0 = "\<lparr>obj_start = cs, obj_end = ce, process_value = cv, user_data = u1, stack = []\<rparr>"
  let ?ns = "nodes (value_pairs_scope_set E vp vp_walk_cmp ev)"
  have r0: "records ?sl0 ?s0" by (simp add: records_def)
  obtain sl r where fl:
    "g_tree_foreach_nodes (vp_foreach_helper value_pairs_walker) ?ns (?sl0, True) = (sl, r)"
    by (cases "g_tree_foreach_nodes (vp_foreach_helper value_pairs_walker) ?ns (?sl0, True)")
  obtain s r' where fs:
    "g_tree_foreach_nodes (vp_foreach_helper value_pairs_walker) ?ns (?s0, True) = (s, r')"
    by (cases "g_tree_foreach_nodes (vp_foreach_helper value_pairs_walker) ?ns (?s0, True)")
  from walker_foreach_recorded [OF r0, of ?ns True] fl fs
  have rr: "r' = r" and rec: "records sl s" by simp_all
  from unwind_until_recorded [OF rec, of None]
  have rec2: "records (vp_walker_stack_unwind_all_containers sl)
                (vp_walker_stack_unwind_all_containers s)"
    by (simp add: vp_walker_stack_unwind_all_containers_def)
  obtain u2 l2 where ul2: "user_data (vp_walker_stack_unwind_all_containers sl) = (u2, l2)"
    by (cases "user_data (vp_walker_stack_unwind_all_containers sl)")
  with rec2 have u2: "user_data (vp_walker_stack_unwind_all_containers s) = u2"
    by (simp add: records_def)
  show ?thesis
    by (simp add: value_pairs_walk_def log_obj_start_def cb1 value_pairs_foreach_sorted_def
          g_tree_foreach_def fl fs rr ul2 u2 log_obj_end_def split: prod.splits)
qed

lemma walk_result_plain:
  "walk_result E vp cs cv ce ev u = fst (value_pairs_walk E vp cs cv ce ev u)"
  by (simp add: walk_result_def value_pairs_walk_recorded)

lemma log_foreach_step:
  "log_foreach func n t v (u, l) =
     (case func n t v u of (failed, u') \<Rightarrow> (failed, (u', l @ [(n, t, v, failed)])))"
  by (simp add: log_foreach_def)

lemma foreach_nodes_recorded:
  "fst (fst (g_tree_foreach_nodes (vp_foreach_helper (log_foreach func)) ns ((u, l), r))) =
     fst (g_tree_foreach_nodes (vp_foreach_helper func) ns (u, r)) \<and>
   snd (g_tree_foreach_nodes (vp_foreach_helper (log_foreach func)) ns ((u, l), r)) =
     snd (g_tree_foreach_nodes (vp_foreach_helper func) ns (u, r))"
proof (induction ns arbitrary: u l r)
  case Nil
  show ?case by simp
next
  case (Cons a ns)
  obtain k v where a: "a = (k, v)" by (cases a)
  obtain f u' where c: "func k (sb_type_hint v) (c_str (sb_string v)) u = (f, u')"
    by (cases "func k (sb_type_hint v) (c_str (sb_string v)) u")
  from Cons.IH [of u' "l @ [(k, sb_type_hint v, c_str (sb_string v), f)]" "r \<and> \<not> f"]
  show ?case
    by (auto simp: a vp_foreach_helper_step log_foreach_step c)
qed

lemma foreach_result_plain:
  "foreach_result E vp func compare_func ev u =
     fst (value_pairs_foreach_sorted E vp func compare_func ev u)"
  using foreach_nodes_recorded
    [of func "nodes (value_pairs_scope_set E vp compare_func ev)" u "[]" True]
  by (auto simp: foreach_result_def value_pairs_foreach_sorted_def g_tree_foreach_def
        split: prod.splits)

section \<open>Results on the traversals\<close>

lemma example_walk_nesting:
  "example_nv_walk '''' [(5, ''a.b.c'', ''1''), (6, ''a.b.d'', ''2''), (7, ''a.e'', ''3'')] =
     [ObjStart None None None,
      ObjStart (Some ''a'') (Some ''a'') None,
      ProcessValue ''e'' (Some ''a'') TYPE_HINT_STRING ''3'' False,
      ObjStart (Some ''b'') (Some ''a.b'') (Some ''a''),
      ProcessValue ''d'' (Some ''a.b'') TYPE_HINT_STRING ''2'' False,
      ProcessValue ''c'' (Some ''a.b'') TYPE_HINT_STRING ''1'' False,
      ObjEnd (Some ''b'') (Some ''a.b'') (Some ''a''),
      ObjEnd (Some ''a'') (Some ''a'') None,
      ObjEnd None None None]"
  by code_simp

lemma example_walk_failure:
  "example_nv_walk ''e'' [(5, ''a.b.c'', ''1''), (6, ''a.b.d'', ''2''), (7, ''a.e'', ''3'')] =
     [ObjStart None None None,
      ObjStart (Some ''a'') (Some ''a'') None,
      ProcessValue ''e'' (Some ''a'') TYPE_HINT_STRING ''3'' True,
      ObjEnd (Some ''a'') (Some ''a'') None,
      ObjEnd None None None]"
  by code_simp

lemma example_walk_byte_prefix:
  "example_nv_walk '''' [(5, ''a.x'', ''1''), (6, ''a-b'', ''2'')] =
     [ObjStart None None None,
      ObjStart (Some ''a'') (Some ''a'') None,
      ProcessValue ''x'' (Some ''a'') TYPE_HINT_STRING ''1'' False,
      ProcessValue ''a-b'' (Some ''a'') TYPE_HINT_STRING ''2'' False,
      ObjEnd (Some ''a'') (Some ''a'') None,
      ObjEnd None None None]"
  by code_simp

lemma example_walker_a_x_ab:
  "wlog (snd (value_pairs_walker ''ab'' TYPE_HINT_STRING ''2''
           (snd (value_pairs_walker ''a.x'' TYPE_HINT_STRING ''1'' example_walk_state)))) =
     [ObjStart (Some ''a'') (Some ''a'') None,
      ProcessValue ''x'' (Some ''a'') TYPE_HINT_STRING ''1'' False,
      ProcessValue ''ab'' (Some ''a'') TYPE_HINT_STRING ''2'' False]"
  by code_simp

lemma example_foreach_failure:
  "foreach_calls example_E (value_pairs_new\<lparr>scopes := VPS_NV_PAIRS\<rparr>) (example_foreach_cb ''b'')
     strcmp (example_ev [(5, ''a'', ''1''), (6, ''b'', ''2''), (7, ''c'', ''3'')]) () =
     [(''a'', TYPE_HINT_STRING, ''1'', False), (''b'', TYPE_HINT_STRING, ''2'', True)]"
  by code_simp

lemma strncmp_take: "(strncmp a b n = 0) = (take n a = take n b)"
  by (induction a b n rule: strncmp.induct) auto

text \<open>
  C6. Walker balance. For every evaluation through \<open>value_pairs_walk\<close>, with any
  consumer callbacks, the sequence of callbacks is well nested: run against a stack, every
  \<open>obj_start\<close> and every value names the prefix of the innermost open container as its
  parent, every \<open>obj_end\<close> closes the innermost open container with the key, the
  prefix and the parent it was opened with, so it comes after all events of the
  containers opened inside, and no container is left open at the end. The multiset of the
  \<open>obj_start\<close> events equals the multiset of the \<open>obj_end\<close> events, and the whole
  walk is bracketed by \<open>obj_start\<close> and \<open>obj_end\<close> with \<open>NULL\<close> arguments.
\<close>

theorem walker_balance:
  "check_events (walk_trace E vp cs cv ce ev u) = Some [] \<and>
   obj_starts (walk_trace E vp cs cv ce ev u) = obj_ends (walk_trace E vp cs cv ce ev u) \<and>
   (\<exists>mid. walk_trace E vp cs cv ce ev u =
            ObjStart None None None # mid @ [ObjEnd None None None])"
  using walk_trace_balanced [of E vp cs cv ce ev u]
    check_events_counts [of "walk_trace E vp cs cv ce ev u"]
  by blast

theorem walker_balance_witness:
  "check_events
     (example_nv_walk '''' [(5, ''a.b.c'', ''1''), (6, ''a.b.d'', ''2''), (7, ''a.e'', ''3'')]) =
     Some [] \<and>
   obj_starts
     (example_nv_walk '''' [(5, ''a.b.c'', ''1''), (6, ''a.b.d'', ''2''), (7, ''a.e'', ''3'')]) =
     {#(None, None, None), (Some ''a'', Some ''a'', None), (Some ''b'', Some ''a.b'', Some ''a'')#}"
proof -
  from walker_balance
    [of example_E "value_pairs_new\<lparr>scopes := VPS_NV_PAIRS\<rparr>" example_obj_cb
        "example_value_cb ''''" example_obj_cb
        "example_ev [(5, ''a.b.c'', ''1''), (6, ''a.b.d'', ''2''), (7, ''a.e'', ''3'')]" "()"]
  have "check_events
     (example_nv_walk '''' [(5, ''a.b.c'', ''1''), (6, ''a.b.d'', ''2''), (7, ''a.e'', ''3'')]) =
     Some []"
    by (simp add: example_nv_walk_def)
  then show ?thesis
    by (simp add: example_walk_nesting)
qed

text \<open>
  C8, as the claim states it, fails for the hierarchical walk. With the keys \<open>a.b.c\<close>,
  \<open>a.b.d\<close> and \<open>a.e\<close> and a consumer that fails at the value \<open>e\<close>, the accumulator
  is false after the third callback, and two more consumer callbacks follow: the
  \<open>obj_end\<close> of the container \<open>a\<close> and the closing \<open>obj_end\<close>.
\<close>

theorem callback_failure_counterexample:
  "example_nv_walk ''e'' [(5, ''a.b.c'', ''1''), (6, ''a.b.d'', ''2''), (7, ''a.e'', ''3'')] =
     [ObjStart None None None,
      ObjStart (Some ''a'') (Some ''a'') None,
      ProcessValue ''e'' (Some ''a'') TYPE_HINT_STRING ''3'' True,
      ObjEnd (Some ''a'') (Some ''a'') None,
      ObjEnd None None None] \<and>
   drop 1 (dropWhile (\<lambda>e. \<not> is_failure e)
     (example_nv_walk ''e'' [(5, ''a.b.c'', ''1''), (6, ''a.b.d'', ''2''), (7, ''a.e'', ''3'')])) =
     [ObjEnd (Some ''a'') (Some ''a'') None, ObjEnd None None None]"
  by (simp add: example_walk_failure)

text \<open>
  C8 (amended). A callback failure short-circuits the traversal. In the flat traversal no
  consumer callback is called after the first one that signals a failure. In the
  hierarchical walk, after the first \<open>process_value\<close> callback that signals a failure no
  \<open>process_value\<close> and no \<open>obj_start\<close> callback is called any more: the only
  callbacks that follow are \<open>obj_end\<close> callbacks, which close the containers that are
  open and the walk itself. In both, the call returns false exactly when a callback has
  signalled a failure (in the walk: a \<open>process_value\<close> callback, the only one whose
  result the walker reads).
\<close>

theorem callback_failure_short_circuit:
  "drop 1 (dropWhile (\<lambda>c. \<not> call_failed c) (foreach_calls E vp func compare_func ev u)) = [] \<and>
   fst (value_pairs_foreach_sorted E vp func compare_func ev u) =
     (\<not> list_ex call_failed (foreach_calls E vp func compare_func ev u)) \<and>
   list_all is_obj_end
     (drop 1 (dropWhile (\<lambda>e. \<not> is_failure e) (walk_trace E vp cs cv ce ev w))) \<and>
   fst (value_pairs_walk E vp cs cv ce ev w) =
     (\<not> list_ex is_failure (walk_trace E vp cs cv ce ev w))"
  using foreach_calls_after_failure [of E vp func compare_func ev u]
    walk_trace_after_failure [of E vp cs cv ce ev w]
  by (simp add: walk_result_plain foreach_result_plain)

theorem callback_failure_short_circuit_witness:
  "fst (value_pairs_foreach_sorted example_E (value_pairs_new\<lparr>scopes := VPS_NV_PAIRS\<rparr>)
          (example_foreach_cb ''b'') strcmp
          (example_ev [(5, ''a'', ''1''), (6, ''b'', ''2''), (7, ''c'', ''3'')]) ()) = False \<and>
   fst (value_pairs_walk example_E (value_pairs_new\<lparr>scopes := VPS_NV_PAIRS\<rparr>)
          example_obj_cb (example_value_cb ''e'') example_obj_cb
          (example_ev [(5, ''a.b.c'', ''1''), (6, ''a.b.d'', ''2''), (7, ''a.e'', ''3'')]) ()) = False"
proof -
  from callback_failure_short_circuit
    [of example_E "value_pairs_new\<lparr>scopes := VPS_NV_PAIRS\<rparr>" "example_foreach_cb ''b''"
        strcmp "example_ev [(5, ''a'', ''1''), (6, ''b'', ''2''), (7, ''c'', ''3'')]" "()"
        example_obj_cb "example_value_cb ''e''" example_obj_cb "()"]
  have 1: "fst (value_pairs_foreach_sorted example_E (value_pairs_new\<lparr>scopes := VPS_NV_PAIRS\<rparr>)
          (example_foreach_cb ''b'') strcmp
          (example_ev [(5, ''a'', ''1''), (6, ''b'', ''2''), (7, ''c'', ''3'')]) ()) = False"
    by (simp add: example_foreach_failure)
  from callback_failure_short_circuit
    [of example_E "value_pairs_new\<lparr>scopes := VPS_NV_PAIRS\<rparr>" "example_foreach_cb ''b''"
        strcmp "example_ev [(5, ''a.b.c'', ''1''), (6, ''a.b.d'', ''2''), (7, ''a.e'', ''3'')]" "()"
        example_obj_cb "example_value_cb ''e''" example_obj_cb "()"]
    example_walk_failure
  have 2: "fst (value_pairs_walk example_E (value_pairs_new\<lparr>scopes := VPS_NV_PAIRS\<rparr>)
          example_obj_cb (example_value_cb ''e'') example_obj_cb
          (example_ev [(5, ''a.b.c'', ''1''), (6, ''a.b.d'', ''2''), (7, ''a.e'', ''3'')]) ()) = False"
    by (simp add: example_nv_walk_def)
  from 1 2 show ?thesis by simp
qed

text \<open>
  C2, as the claim states it, fails for the values that the callbacks get. The message
  has the pair \<open>a\<close> with a value of two bytes, a NUL byte and \<open>x\<close>. The value is
  not empty, so the pair is in the tree, with a length of two; the callback of the flat
  traversal and the \<open>process_value\<close> callback of the walker get it as a \<open>char *\<close>,
  and what they read is the empty string.
\<close>

theorem values_never_empty_counterexample:
  "nodes (value_pairs_scope_set example_E (value_pairs_new\<lparr>scopes := VPS_NV_PAIRS\<rparr>) strcmp
            (example_ev [(5, ''a'', [CHR 0x00, CHR ''x''])])) =
     [(''a'', \<lparr>sb_type_hint = TYPE_HINT_STRING, sb_string = [CHR 0x00, CHR ''x'']\<rparr>)] \<and>
   foreach_calls example_E (value_pairs_new\<lparr>scopes := VPS_NV_PAIRS\<rparr>) (example_foreach_cb '''')
     strcmp (example_ev [(5, ''a'', [CHR 0x00, CHR ''x''])]) () =
     [(''a'', TYPE_HINT_STRING, [], False)] \<and>
   example_nv_walk '''' [(5, ''a'', [CHR 0x00, CHR ''x''])] =
     [ObjStart None None None,
      ProcessValue ''a'' None TYPE_HINT_STRING [] False,
      ObjEnd None None None]"
  by (intro conjI; code_simp)

text \<open>
  C2 (amended). For every message and every configuration, every value in the tree that
  the traversal gets has a length greater than zero, whatever the comparison function:
  the phases drop an empty value of a name-value pair of the message, an empty rendering
  of an entry of a built-in table and an empty rendering of the template of an explicit
  pair before the insertion. Every call of the callback of the flat traversal and every
  \<open>process_value\<close> callback of the walker hands on a node of this tree, with the type
  hint of the node and with its value read as a NUL-terminated string: the bytes before
  the first NUL byte. The value that the callback gets is empty exactly if the value in
  the tree begins with a NUL byte.
\<close>

theorem values_never_empty:
  "values_nonempty (value_pairs_scope_set E vp compare_func ev) \<and>
   list_all (call_delivers (value_pairs_scope_set E vp compare_func ev))
     (foreach_calls E vp func compare_func ev u) \<and>
   list_all (event_delivers (value_pairs_scope_set E vp vp_walk_cmp ev))
     (walk_trace E vp cs cv ce ev w)"
  using values_nonempty_scope_set [of E vp compare_func ev]
    foreach_calls_values [of E vp compare_func ev func u]
    walk_trace_values [of E vp ev cs cv ce w]
  by blast

theorem values_never_empty_witness:
  "values_nonempty (value_pairs_scope_set example_E (value_pairs_new\<lparr>scopes := VPS_RFC3164\<rparr>)
     strcmp (example_ev [(1, ''HOST'', ''''), (2, ''PROGRAM'', ''x'')])) \<and>
   nodes (value_pairs_scope_set example_E (value_pairs_new\<lparr>scopes := VPS_RFC3164\<rparr>)
     strcmp (example_ev [(1, ''HOST'', ''''), (2, ''PROGRAM'', ''x'')])) =
     [(''PROGRAM'', \<lparr>sb_type_hint = TYPE_HINT_STRING, sb_string = ''x''\<rparr>)]"
proof -
  have "nodes (value_pairs_scope_set example_E (value_pairs_new\<lparr>scopes := VPS_RFC3164\<rparr>)
     strcmp (example_ev [(1, ''HOST'', ''''), (2, ''PROGRAM'', ''x'')])) =
     [(''PROGRAM'', \<lparr>sb_type_hint = TYPE_HINT_STRING, sb_string = ''x''\<rparr>)]"
    by (simp add: example_defs scope_set_defs)
  with values_never_empty
    [of example_E "value_pairs_new\<lparr>scopes := VPS_RFC3164\<rparr>" strcmp
        "example_ev [(1, ''HOST'', ''''), (2, ''PROGRAM'', ''x'')]"
        "example_foreach_cb ''''" "()" example_obj_cb "example_value_cb ''''" example_obj_cb "()"]
  show ?thesis by blast
qed

lemma unwind_until_kept_frames:
  "map frame_id (stack (vp_walker_stack_unwind_containers_until state (Some name))) =
     map frame_id
       (dropWhile (\<lambda>t. take (wk_prefix_len t) name \<noteq> take (wk_prefix_len t) (wk_prefix t))
          (stack state))"
proof -
  obtain st u where r:
    "unwind_containers (obj_end state) (Some name) (stack state) (user_data state) = (st, u)"
    by (cases "unwind_containers (obj_end state) (Some name) (stack state) (user_data state)")
  from unwind_containers_shape [of "obj_end state" "Some name" "stack state" "user_data state"]
  have "map frame_id st =
          map frame_id (dropWhile (\<lambda>t. \<not> id_matches (Some name) (frame_id t)) (stack state))"
    by (simp add: r dropWhile_map comp_def)
  also have "\<dots> = map frame_id
       (dropWhile (\<lambda>t. take (wk_prefix_len t) name \<noteq> take (wk_prefix_len t) (wk_prefix t))
          (stack state))"
    by (simp add: frame_id_def strncmp_take)
  finally show ?thesis
    by (simp add: vp_walker_stack_unwind_containers_until_def r)
qed

lemma value_pairs_walker_parent:
  fixes cs :: "('d, 'u) VPWalkCallbackFunc"
  shows "snd (user_data (snd (value_pairs_walker name type val
       \<lparr>obj_start = log_obj_start cs, obj_end = log_obj_end ce,
        process_value = log_process_value cv, user_data = (u, l), stack = st\<rparr>))) =
     l @
     close_events (takeWhile (\<lambda>f. \<not> id_matches (Some name) f) (map frame_id st))
       (dropWhile (\<lambda>f. \<not> id_matches (Some name) f) (map frame_id st)) @
     open_events
       (new_frames (split_loop name 0 [])
          (length (dropWhile (\<lambda>f. \<not> id_matches (Some name) f) (map frame_id st))))
       (parent_prefix (dropWhile (\<lambda>f. \<not> id_matches (Some name) f) (map frame_id st))) @
     [ProcessValue (walker_key name)
        (parent_prefix
           (rev (new_frames (split_loop name 0 [])
                   (length (dropWhile (\<lambda>f. \<not> id_matches (Some name) f) (map frame_id st)))) @
            dropWhile (\<lambda>f. \<not> id_matches (Some name) f) (map frame_id st)))
        type val
        (fst (value_pairs_walker name type val
           \<lparr>obj_start = log_obj_start cs, obj_end = log_obj_end ce,
            process_value = log_process_value cv, user_data = (u, l), stack = st\<rparr>))]"
proof -
  let ?state = "\<lparr>obj_start = log_obj_start cs, obj_end = log_obj_end ce,
        process_value = log_process_value cv, user_data = (u, l), stack = st\<rparr>"
  have lg: "logging cs cv ce ?state" by (simp add: logging_def)
  obtain result state' where w: "value_pairs_walker name type val ?state = (result, state')"
    by (cases "value_pairs_walker name type val ?state")
  from value_pairs_walker_logging [OF lg w]
  have "wlog state' = wlog ?state @ walker_events name (wshape ?state) @
           [ProcessValue (walker_key name) (parent_prefix (walker_shape name (wshape ?state)))
              type val result]"
    by (elim conjE)
  then show ?thesis
    by (simp add: w wlog_def wshape_def walker_events_def walker_shape_def walker_kept_def)
qed


text \<open>
  C10, as the claim states it, fails for the frames beneath the first frame that matches.
  A walk visits the keys \<open>b.zz\<close>, \<open>b-foo@1a.x.y\<close> and \<open>a.x.k\<close> in this order.
  After the second key the stack holds the frame of the container \<open>x\<close> with the
  prefix \<open>a.x\<close> on top of the frame of the container \<open>b\<close> with the prefix
  \<open>b\<close>. The unwinding for the key \<open>a.x.k\<close> stops at the top frame, which
  matches, and keeps both frames: the frame \<open>b\<close> is kept although \<open>b\<close> is not a
  prefix of \<open>a.x.k\<close>, and the container \<open>b\<close> is closed only at the end of the walk.
\<close>

theorem walker_retention_counterexample:
  "map frame_id (stack (vp_walker_stack_unwind_containers_until
     (snd (value_pairs_walker ''b-foo@1a.x.y'' TYPE_HINT_STRING ''2''
        (snd (value_pairs_walker ''b.zz'' TYPE_HINT_STRING ''1'' example_walk_state))))
     (Some ''a.x.k''))) =
     [(''x'', ''a.x'', 3), (''b'', ''b'', 1)] \<and>
   strncmp ''a.x.k'' ''b'' 1 = - 1 \<and>
   take 1 ''a.x.k'' = ''a'' \<and>
   example_nv_walk ''''
     [(5, ''b.zz'', ''1''), (6, ''b-foo@1a.x.y'', ''2''), (7, ''a.x.k'', ''3'')] =
     [ObjStart None None None,
      ObjStart (Some ''b'') (Some ''b'') None,
      ProcessValue ''zz'' (Some ''b'') TYPE_HINT_STRING ''1'' False,
      ObjStart (Some ''x'') (Some ''a.x'') (Some ''b''),
      ProcessValue ''y'' (Some ''a.x'') TYPE_HINT_STRING ''2'' False,
      ProcessValue ''k'' (Some ''a.x'') TYPE_HINT_STRING ''3'' False,
      ObjEnd (Some ''x'') (Some ''a.x'') (Some ''b''),
      ObjEnd (Some ''b'') (Some ''b'') None,
      ObjEnd None None None]"
  by (intro conjI; code_simp)

text \<open>
  C10 (amended). The walker retains a container by a test on bytes, not on tokens. The
  unwinding takes the frames off the top of the stack one by one and stops at the first
  frame whose prefix agrees with the next key on its first \<open>prefix_len\<close> bytes, that
  is, whose prefix is a prefix of the key as a sequence of bytes (a frame that the walker
  has pushed has the length of its prefix as \<open>prefix_len\<close>). The frames taken off
  before are closed; this frame is kept, and so are the frames beneath it, which are not
  tested. The frame kept on top is the parent of the events that follow: of the first
  container opened for the key, or of the value when no container is opened. This is
  shown for every key, every stack and every consumer by the record of the calls of
  \<open>value_pairs_walker\<close>. The match need not end where a token ends: after the walker
  has emitted the key \<open>a.x\<close>, the key \<open>ab\<close> keeps the open container \<open>a\<close> and
  is emitted with it as its parent; in a whole walk, which visits the keys in descending
  order, the key \<open>a-b\<close> after \<open>a.x\<close> does the same.
\<close>

theorem walker_retention_byte_prefix:
  fixes cs :: "('d, 'u) VPWalkCallbackFunc"
  shows
  "map frame_id (stack (vp_walker_stack_unwind_containers_until state (Some name))) =
     map frame_id
       (dropWhile (\<lambda>t. take (wk_prefix_len t) name \<noteq> take (wk_prefix_len t) (wk_prefix t))
          (stack state)) \<and>
   wk_prefix_len (vp_walker_stack_push key prefix) = length prefix \<and>
   unwind_matches (Some name) (vp_walker_stack_push key prefix) =
     (take (length prefix) name = prefix) \<and>
   id_matches (Some name) (key, prefix, length prefix) = (take (length prefix) name = prefix) \<and>
   snd (user_data (snd (value_pairs_walker name type val
       \<lparr>obj_start = log_obj_start cs, obj_end = log_obj_end ce,
        process_value = log_process_value cv, user_data = (u, l), stack = st\<rparr>))) =
     l @
     close_events (takeWhile (\<lambda>f. \<not> id_matches (Some name) f) (map frame_id st))
       (dropWhile (\<lambda>f. \<not> id_matches (Some name) f) (map frame_id st)) @
     open_events
       (new_frames (split_loop name 0 [])
          (length (dropWhile (\<lambda>f. \<not> id_matches (Some name) f) (map frame_id st))))
       (parent_prefix (dropWhile (\<lambda>f. \<not> id_matches (Some name) f) (map frame_id st))) @
     [ProcessValue (walker_key name)
        (parent_prefix
           (rev (new_frames (split_loop name 0 [])
                   (length (dropWhile (\<lambda>f. \<not> id_matches (Some name) f) (map frame_id st)))) @
            dropWhile (\<lambda>f. \<not> id_matches (Some name) f) (map frame_id st)))
        type val
        (fst (value_pairs_walker name type val
           \<lparr>obj_start = log_obj_start cs, obj_end = log_obj_end ce,
            process_value = log_process_value cv, user_data = (u, l), stack = st\<rparr>))] \<and>
   wlog (snd (value_pairs_walker ''ab'' TYPE_HINT_STRING ''2''
           (snd (value_pairs_walker ''a.x'' TYPE_HINT_STRING ''1'' example_walk_state)))) =
     [ObjStart (Some ''a'') (Some ''a'') None,
      ProcessValue ''x'' (Some ''a'') TYPE_HINT_STRING ''1'' False,
      ProcessValue ''ab'' (Some ''a'') TYPE_HINT_STRING ''2'' False] \<and>
   example_nv_walk '''' [(5, ''a.x'', ''1''), (6, ''a-b'', ''2'')] =
     [ObjStart None None None,
      ObjStart (Some ''a'') (Some ''a'') None,
      ProcessValue ''x'' (Some ''a'') TYPE_HINT_STRING ''1'' False,
      ProcessValue ''a-b'' (Some ''a'') TYPE_HINT_STRING ''2'' False,
      ObjEnd (Some ''a'') (Some ''a'') None,
      ObjEnd None None None]"
proof (intro conjI)
  show "map frame_id (stack (vp_walker_stack_unwind_containers_until state (Some name))) =
     map frame_id
       (dropWhile (\<lambda>t. take (wk_prefix_len t) name \<noteq> take (wk_prefix_len t) (wk_prefix t))
          (stack state))"
    by (rule unwind_until_kept_frames)
next
  show "wk_prefix_len (vp_walker_stack_push key prefix) = length prefix"
    by (simp add: vp_walker_stack_push_def)
next
  show "unwind_matches (Some name) (vp_walker_stack_push key prefix) =
     (take (length prefix) name = prefix)"
    by (simp add: vp_walker_stack_push_def unwind_matches_def strncmp_take)
next
  show "id_matches (Some name) (key, prefix, length prefix) = (take (length prefix) name = prefix)"
    by (simp add: strncmp_take)
next
  show "wlog (snd (value_pairs_walker ''ab'' TYPE_HINT_STRING ''2''
           (snd (value_pairs_walker ''a.x'' TYPE_HINT_STRING ''1'' example_walk_state)))) =
     [ObjStart (Some ''a'') (Some ''a'') None,
      ProcessValue ''x'' (Some ''a'') TYPE_HINT_STRING ''1'' False,
      ProcessValue ''ab'' (Some ''a'') TYPE_HINT_STRING ''2'' False]"
    by (rule example_walker_a_x_ab)
next
  show "example_nv_walk '''' [(5, ''a.x'', ''1''), (6, ''a-b'', ''2'')] =
     [ObjStart None None None,
      ObjStart (Some ''a'') (Some ''a'') None,
      ProcessValue ''x'' (Some ''a'') TYPE_HINT_STRING ''1'' False,
      ProcessValue ''a-b'' (Some ''a'') TYPE_HINT_STRING ''2'' False,
      ObjEnd (Some ''a'') (Some ''a'') None,
      ObjEnd None None None]"
    by (rule example_walk_byte_prefix)
qed (rule value_pairs_walker_parent)

section \<open>Results on the phase of the name-value pairs\<close>















end
